theory Spec2Isabelle
  imports Main "HOL-Library.Word"
begin

section \<open>Data model of \<^verbatim>\<open>mavalloc.c\<close>\<close>

text \<open>
  The allocator keeps its whole state in global variables. The model collects them in one
  record that every operation takes and returns. Values of type \<^verbatim>\<open>size_t\<close> are 64-bit
  words (the source prints them with \<^verbatim>\<open>%ld\<close>), so every addition and subtraction wraps
  as in C. A \<^verbatim>\<open>struct Node *\<close> is either \<^verbatim>\<open>NULL\<close> (\<open>None\<close>) or the address of a slot of
  the array \<^verbatim>\<open>node_stack\<close> (\<open>Some i\<close> for slot \<open>i\<close>); the array is a store from slot
  numbers to node contents, so that two pointers to one slot alias as they do in C.
  A \<^verbatim>\<open>void *\<close> is a 64-bit word, \<^verbatim>\<open>NULL\<close> being \<open>0\<close>.
\<close>

type_synonym size_t = "64 word"

type_synonym node_ptr = "nat option"

text \<open>
  Modelled from the spec: the header \<^verbatim>\<open>mavalloc.h\<close> is not among the sources. It declares
  the enumeration \<^verbatim>\<open>ALGORITHM\<close> (a closed set of four strategies) and the macro
  \<^verbatim>\<open>ALIGN4\<close>, which "rounds size up to a multiple of 4"; on \<^verbatim>\<open>size_t\<close> the rounding is
  done in 64-bit arithmetic.
\<close>

datatype ALGORITHM = FIRST_FIT | NEXT_FIT | BEST_FIT | WORST_FIT

definition ALIGN4 :: "size_t \<Rightarrow> size_t" where
  "ALIGN4 s = ((s + 3) div 4) * 4"

datatype ALLOCATE = HOLE | PROCESS

record Node =
  type_n :: ALLOCATE
  address :: size_t
  size_n :: size_t
  next_n :: node_ptr

record allocator =
  memory_arena :: size_t
  memory_arena_size :: size_t
  heap_algo :: ALGORITHM
  head_pointer :: node_ptr
  previous_node :: node_ptr
  node_stack :: "nat \<Rightarrow> Node"
  stack_head :: node_ptr

definition NODE_AMOUNT :: nat where
  "NODE_AMOUNT = 200"

text \<open>
  A call either returns or dereferences \<^verbatim>\<open>NULL\<close>; the latter is the outcome \<open>Crash\<close>.
  A loop that walks the links of the store is a partial function: its value \<open>None\<close>
  means that the loop never ends.
\<close>

datatype 'a outcome = Crash | Ret 'a

text \<open>The state before the first call: every global is zero-initialised.\<close>

definition uninitialised :: "(nat \<Rightarrow> Node) \<Rightarrow> allocator" where
  "uninitialised mem =
     \<lparr>memory_arena = 0, memory_arena_size = 0, heap_algo = FIRST_FIT,
      head_pointer = None, previous_node = None, node_stack = mem, stack_head = None\<rparr>"

section \<open>The reserve stack of nodes\<close>

definition upd_node :: "nat \<Rightarrow> (Node \<Rightarrow> Node) \<Rightarrow> allocator \<Rightarrow> allocator" where
  "upd_node p f s = s\<lparr>node_stack := (node_stack s)(p := f (node_stack s p))\<rparr>"

text \<open>
  \<^verbatim>\<open>node_stack_init\<close>: \<open>mem\<close> is the content of the block that \<^verbatim>\<open>malloc\<close> returned for
  the array, which the C standard leaves indeterminate. The loop links slot \<open>i\<close> to slot
  \<open>i + 1\<close>, the last slot gets \<^verbatim>\<open>NULL\<close>.
\<close>

definition node_stack_init :: "nat \<Rightarrow> (nat \<Rightarrow> Node) \<Rightarrow> allocator \<Rightarrow> allocator" where
  "node_stack_init node_amount mem s =
     (let linked = fold (\<lambda>i m. m(i := (m i)\<lparr>next_n := Some (i + 1)\<rparr>)) [0..<node_amount - 1] mem;
          ended = linked(node_amount - 1 := (linked (node_amount - 1))\<lparr>next_n := None\<rparr>)
      in s\<lparr>node_stack := ended, stack_head := Some 0\<rparr>)"

definition node_malloc :: "allocator \<Rightarrow> allocator \<times> node_ptr" where
  "node_malloc s =
     (case stack_head s of
        None \<Rightarrow> (s, None)
      | Some new \<Rightarrow> (s\<lparr>stack_head := next_n (node_stack s new)\<rparr>, Some new))"

definition node_free :: "nat \<Rightarrow> allocator \<Rightarrow> allocator" where
  "node_free node s =
     (upd_node node (\<lambda>n. n\<lparr>next_n := stack_head s\<rparr>) s)\<lparr>stack_head := Some node\<rparr>"

definition new_node :: "ALLOCATE \<Rightarrow> size_t \<Rightarrow> size_t \<Rightarrow> allocator \<Rightarrow> allocator \<times> node_ptr" where
  "new_node t a sz s =
     (case node_malloc s of
        (s1, None) \<Rightarrow> (s1, None)
      | (s1, Some new) \<Rightarrow>
          (upd_node new (\<lambda>_. \<lparr>type_n = t, address = a, size_n = sz, next_n = None\<rparr>) s1, Some new))"

section \<open>Initialisation and teardown\<close>

text \<open>
  \<^verbatim>\<open>mavalloc_init\<close>. The two calls of \<^verbatim>\<open>malloc\<close> are inputs of the model: \<open>arena\<close> is the
  pointer returned for the arena (\<open>0\<close> when the request fails) and \<open>stack_mem\<close> the block
  returned for the node array with its indeterminate content (\<open>None\<close> when that request
  fails; the source does not test it and writes through the pointer). The test
  \<^verbatim>\<open>size < 0\<close> of the source is never true of a \<^verbatim>\<open>size_t\<close>.
\<close>

definition mavalloc_init ::
  "size_t \<Rightarrow> (nat \<Rightarrow> Node) option \<Rightarrow> size_t \<Rightarrow> ALGORITHM \<Rightarrow> allocator \<Rightarrow> (allocator \<times> int) outcome" where
  "mavalloc_init arena stack_mem sz algorithm s =
     (let requested_size = ALIGN4 sz;
          s1 = s\<lparr>memory_arena := arena\<rparr>
      in if arena = 0 then Ret (s1, - 1)
         else
           (case stack_mem of
              None \<Rightarrow> Crash
            | Some mem \<Rightarrow>
                (let s2 = s1\<lparr>memory_arena_size := requested_size\<rparr>;
                     s3 = node_stack_init NODE_AMOUNT mem s2;
                     s4 = s3\<lparr>heap_algo := algorithm\<rparr>;
                     (s5, hp) = new_node HOLE 0 0 s4;
                     s6 = s5\<lparr>head_pointer := hp\<rparr>
                 in case hp of
                      None \<Rightarrow> Ret (s6, - 1)
                    | Some h \<Rightarrow>
                        (let (s7, first) = new_node HOLE 0 requested_size s6;
                             s8 = upd_node h (\<lambda>n. n\<lparr>next_n := first\<rparr>) s7
                         in if first = None then Ret (s8, - 1)
                            else Ret (s8\<lparr>previous_node := Some h\<rparr>, 0)))))"

text \<open>
  \<^verbatim>\<open>mavalloc_destroy\<close>: \<^verbatim>\<open>free\<close> releases the two blocks and leaves the pointers to them
  as they are; the function then clears the three list pointers.
\<close>

definition mavalloc_destroy :: "allocator \<Rightarrow> allocator" where
  "mavalloc_destroy s =
     (if head_pointer s = None then s
      else s\<lparr>head_pointer := None, previous_node := None, stack_head := None\<rparr>)"

section \<open>Splitting a hole\<close>

text \<open>
  \<^verbatim>\<open>allocate_node\<close>. Every read of \<^verbatim>\<open>hole_ptr->next\<close> goes to the store as it is at
  that statement: the node that \<^verbatim>\<open>new_node\<close> pops may be \<^verbatim>\<open>hole_ptr\<close> itself, whose link
  is then \<^verbatim>\<open>NULL\<close>. After that test the link is not written again before the last
  assignment. On an unsigned value \<^verbatim>\<open><= 0\<close> is \<open>= 0\<close>. The result is the returned pointer.
\<close>

definition allocate_node :: "node_ptr \<Rightarrow> size_t \<Rightarrow> allocator \<Rightarrow> (allocator \<times> size_t) outcome" where
  "allocate_node hole_ptr sz s =
     (case hole_ptr of
        None \<Rightarrow> Ret (s, 0)
      | Some hp \<Rightarrow>
          (case next_n (node_stack s hp) of
             None \<Rightarrow> Crash
           | Some hole0 \<Rightarrow>
               (case new_node PROCESS (address (node_stack s hole0)) sz s of
                  (s1, None) \<Rightarrow> Ret (s1, 0)
                | (s1, Some new) \<Rightarrow>
                    (case next_n (node_stack s1 hp) of
                       None \<Rightarrow> Crash
                     | Some hole \<Rightarrow>
                         (let s2 =
                            (if address (node_stack s1 hole) + sz \<ge> memory_arena_size s1
                             then node_free hole s1
                             else
                               (let s3 = upd_node hole (\<lambda>n. n\<lparr>address := address n + sz\<rparr>) s1;
                                    s4 = upd_node hole (\<lambda>n. n\<lparr>size_n := size_n n - sz\<rparr>) s3
                                in if size_n (node_stack s4 hole) \<le> 0
                                   then node_free hole
                                          (upd_node new (\<lambda>n. n\<lparr>next_n := next_n (node_stack s4 hole)\<rparr>) s4)
                                   else upd_node new (\<lambda>n. n\<lparr>next_n := Some hole\<rparr>) s4));
                              s5 = upd_node hp (\<lambda>n. n\<lparr>next_n := Some new\<rparr>) s2
                          in Ret (s5, memory_arena s5 + address (node_stack s5 new)))))))"

section \<open>The four placement strategies\<close>

text \<open>
  The loop of \<^verbatim>\<open>alloc_first_fit\<close>. \<open>Ret None\<close>: the function returns \<^verbatim>\<open>NULL\<close> from inside
  the loop; \<open>Ret (Some runner)\<close>: the loop ends with this runner.
\<close>

partial_function (option) first_fit_scan :: "(nat \<Rightarrow> Node) \<Rightarrow> size_t \<Rightarrow> nat \<Rightarrow> node_ptr outcome option" where
  "first_fit_scan ns sz runner =
     (case next_n (ns runner) of
        None \<Rightarrow> Some Crash
      | Some nx \<Rightarrow>
          if type_n (ns nx) = PROCESS \<or> size_n (ns nx) < sz
          then (if next_n (ns nx) = None then Some (Ret None) else first_fit_scan ns sz nx)
          else Some (Ret (Some runner)))"

declare first_fit_scan.simps [code]

definition alloc_first_fit :: "size_t \<Rightarrow> allocator \<Rightarrow> (allocator \<times> size_t) outcome option" where
  "alloc_first_fit sz s =
     (case head_pointer s of
        None \<Rightarrow> Some (Ret (s, 0))
      | Some h \<Rightarrow>
          (case first_fit_scan (node_stack s) sz h of
             None \<Rightarrow> None
           | Some Crash \<Rightarrow> Some Crash
           | Some (Ret None) \<Rightarrow> Some (Ret (s, 0))
           | Some (Ret (Some runner)) \<Rightarrow> Some (allocate_node (Some runner) sz s)))"

text \<open>The loop of \<^verbatim>\<open>alloc_next_fit\<close>, with the wrap to the head and the test against the cursor.\<close>

partial_function (option) next_fit_scan ::
  "(nat \<Rightarrow> Node) \<Rightarrow> nat \<Rightarrow> nat \<Rightarrow> size_t \<Rightarrow> nat \<Rightarrow> node_ptr outcome option" where
  "next_fit_scan ns h prev sz runner =
     (case next_n (ns runner) of
        None \<Rightarrow> Some Crash
      | Some nx \<Rightarrow>
          if type_n (ns nx) = PROCESS \<or> size_n (ns nx) < sz
          then (let runner1 = (if next_n (ns nx) = None then h else nx)
                in if runner1 = prev then Some (Ret None)
                   else next_fit_scan ns h prev sz runner1)
          else Some (Ret (Some runner)))"

declare next_fit_scan.simps [code]

definition alloc_next_fit :: "size_t \<Rightarrow> allocator \<Rightarrow> (allocator \<times> size_t) outcome option" where
  "alloc_next_fit sz s =
     (case head_pointer s of
        None \<Rightarrow> Some (Ret (s, 0))
      | Some h \<Rightarrow>
          (case previous_node s of
             None \<Rightarrow> Some Crash
           | Some prev \<Rightarrow>
               (case next_fit_scan (node_stack s) h prev sz prev of
                  None \<Rightarrow> None
                | Some Crash \<Rightarrow> Some Crash
                | Some (Ret None) \<Rightarrow> Some (Ret (s, 0))
                | Some (Ret (Some runner)) \<Rightarrow>
                    Some (allocate_node (Some runner) sz (s\<lparr>previous_node := Some runner\<rparr>)))))"

partial_function (option) best_fit_scan ::
  "(nat \<Rightarrow> Node) \<Rightarrow> size_t \<Rightarrow> nat \<Rightarrow> node_ptr \<Rightarrow> size_t \<Rightarrow> node_ptr option" where
  "best_fit_scan ns sz runner best_hole_ptr min_size =
     (case next_n (ns runner) of
        None \<Rightarrow> Some best_hole_ptr
      | Some nx \<Rightarrow>
          if type_n (ns nx) = HOLE \<and> size_n (ns nx) \<ge> sz \<and> size_n (ns nx) < min_size
          then best_fit_scan ns sz nx (Some runner) (size_n (ns nx))
          else best_fit_scan ns sz nx best_hole_ptr min_size)"

declare best_fit_scan.simps [code]

definition alloc_best_fit :: "size_t \<Rightarrow> allocator \<Rightarrow> (allocator \<times> size_t) outcome option" where
  "alloc_best_fit sz s =
     (case head_pointer s of
        None \<Rightarrow> Some (Ret (s, 0))
      | Some h \<Rightarrow>
          (case best_fit_scan (node_stack s) sz h None (memory_arena_size s + 1) of
             None \<Rightarrow> None
           | Some best_hole_ptr \<Rightarrow> Some (allocate_node best_hole_ptr sz s)))"

partial_function (option) worst_fit_scan ::
  "(nat \<Rightarrow> Node) \<Rightarrow> size_t \<Rightarrow> nat \<Rightarrow> node_ptr \<Rightarrow> size_t \<Rightarrow> node_ptr option" where
  "worst_fit_scan ns sz runner worst_hole_ptr max_size =
     (case next_n (ns runner) of
        None \<Rightarrow> Some worst_hole_ptr
      | Some nx \<Rightarrow>
          if type_n (ns nx) = HOLE \<and> size_n (ns nx) \<ge> sz \<and> size_n (ns nx) > max_size
          then worst_fit_scan ns sz nx (Some runner) (size_n (ns nx))
          else worst_fit_scan ns sz nx worst_hole_ptr max_size)"

declare worst_fit_scan.simps [code]

definition alloc_worst_fit :: "size_t \<Rightarrow> allocator \<Rightarrow> (allocator \<times> size_t) outcome option" where
  "alloc_worst_fit sz s =
     (case head_pointer s of
        None \<Rightarrow> Some (Ret (s, 0))
      | Some h \<Rightarrow>
          (case worst_fit_scan (node_stack s) sz h None 0 of
             None \<Rightarrow> None
           | Some worst_hole_ptr \<Rightarrow> Some (allocate_node worst_hole_ptr sz s)))"

definition mavalloc_alloc :: "size_t \<Rightarrow> allocator \<Rightarrow> (allocator \<times> size_t) outcome option" where
  "mavalloc_alloc sz s =
     (let requested_size = ALIGN4 sz
      in case heap_algo s of
           FIRST_FIT \<Rightarrow> alloc_first_fit requested_size s
         | NEXT_FIT \<Rightarrow> alloc_next_fit requested_size s
         | BEST_FIT \<Rightarrow> alloc_best_fit requested_size s
         | WORST_FIT \<Rightarrow> alloc_worst_fit requested_size s)"

section \<open>Release and coalescing\<close>

partial_function (option) free_scan :: "(nat \<Rightarrow> Node) \<Rightarrow> size_t \<Rightarrow> nat \<Rightarrow> node_ptr outcome option" where
  "free_scan ns target runner =
     (case next_n (ns runner) of
        None \<Rightarrow> Some Crash
      | Some nx \<Rightarrow>
          if address (ns nx) \<noteq> target
          then (if next_n (ns nx) = None then Some (Ret None) else free_scan ns target nx)
          else Some (Ret (Some runner)))"

declare free_scan.simps [code]

text \<open>
  The two statements that merge \<^verbatim>\<open>runner->next\<close> into \<^verbatim>\<open>runner\<close> and push the merged node
  on the reserve stack; the source has them twice.
\<close>

definition absorb_next :: "nat \<Rightarrow> allocator \<Rightarrow> allocator outcome" where
  "absorb_next runner s =
     (case next_n (node_stack s runner) of
        None \<Rightarrow> Crash
      | Some node \<Rightarrow>
          (let s1 = upd_node runner (\<lambda>n. n\<lparr>size_n := size_n n + size_n (node_stack s node)\<rparr>) s;
               s2 = upd_node runner (\<lambda>n. n\<lparr>next_n := next_n (node_stack s1 node)\<rparr>) s1
           in Ret (node_free node s2)))"

text \<open>The part of \<^verbatim>\<open>mavalloc_free\<close> after the search loop.\<close>

definition coalesce :: "nat \<Rightarrow> nat \<Rightarrow> allocator \<Rightarrow> allocator outcome" where
  "coalesce h runner s =
     (let first =
        (if type_n (node_stack s runner) = HOLE \<and> runner \<noteq> h
         then (case absorb_next runner s of Crash \<Rightarrow> Crash | Ret s1 \<Rightarrow> Ret (s1, runner))
         else (case next_n (node_stack s runner) of
                 None \<Rightarrow> Crash
               | Some x \<Rightarrow> Ret (upd_node x (\<lambda>n. n\<lparr>type_n := HOLE\<rparr>) s, x)))
      in case first of
           Crash \<Rightarrow> Crash
         | Ret (s1, runner1) \<Rightarrow>
             (case next_n (node_stack s1 runner1) of
                None \<Rightarrow> Ret s1
              | Some nx \<Rightarrow>
                  if type_n (node_stack s1 nx) = HOLE then absorb_next runner1 s1 else Ret s1))"

definition mavalloc_free :: "size_t \<Rightarrow> allocator \<Rightarrow> allocator outcome option" where
  "mavalloc_free ptr s =
     (case head_pointer s of
        None \<Rightarrow> Some (Ret s)
      | Some h \<Rightarrow>
          (case free_scan (node_stack s) (ptr - memory_arena s) h of
             None \<Rightarrow> None
           | Some Crash \<Rightarrow> Some Crash
           | Some (Ret None) \<Rightarrow> Some (Ret s)
           | Some (Ret (Some runner)) \<Rightarrow> Some (coalesce h runner s)))"

section \<open>Introspection\<close>

partial_function (option) size_scan :: "(nat \<Rightarrow> Node) \<Rightarrow> nat \<Rightarrow> int \<Rightarrow> int option" where
  "size_scan ns runner number_of_nodes =
     (case next_n (ns runner) of
        None \<Rightarrow> Some number_of_nodes
      | Some nx \<Rightarrow> size_scan ns nx (number_of_nodes + 1))"

declare size_scan.simps [code]

definition mavalloc_size :: "allocator \<Rightarrow> int option" where
  "mavalloc_size s =
     (case head_pointer s of
        None \<Rightarrow> Some 0
      | Some h \<Rightarrow> size_scan (node_stack s) h 0)"

text \<open>
  \<^verbatim>\<open>mavalloc_print\<close> writes one line per node after the head: type, address and size. The
  model returns the lines as a list of triples; this list is the block list of the
  allocator as a caller can observe it.
\<close>

type_synonym block = "ALLOCATE \<times> size_t \<times> size_t"

definition block_of :: "Node \<Rightarrow> block" where
  "block_of n = (type_n n, address n, size_n n)"

partial_function (option) print_scan :: "(nat \<Rightarrow> Node) \<Rightarrow> nat \<Rightarrow> block list option" where
  "print_scan ns runner =
     (case next_n (ns runner) of
        None \<Rightarrow> Some []
      | Some nx \<Rightarrow> Option.bind (print_scan ns nx) (\<lambda>rest. Some (block_of (ns nx) # rest)))"

declare print_scan.simps [code]

definition mavalloc_print :: "allocator \<Rightarrow> block list option" where
  "mavalloc_print s =
     (case head_pointer s of
        None \<Rightarrow> Some []
      | Some h \<Rightarrow> print_scan (node_stack s) h)"

text \<open>
  Memory that holds zero in every field, as a value for the indeterminate content of a
  fresh block in concrete runs.
\<close>

definition zero_memory :: "nat \<Rightarrow> Node" where
  "zero_memory = (\<lambda>_. \<lparr>type_n = HOLE, address = 0, size_n = 0, next_n = None\<rparr>)"

section \<open>Vocabulary of the properties\<close>

text \<open>
  A list segment of the store: \<open>lseg ns p xs q\<close> holds when following \<^verbatim>\<open>next\<close> from
  the pointer \<open>p\<close> visits the slots \<open>xs\<close> in this order and arrives at \<open>q\<close>.
\<close>

fun lseg :: "(nat \<Rightarrow> Node) \<Rightarrow> node_ptr \<Rightarrow> nat list \<Rightarrow> node_ptr \<Rightarrow> bool" where
  "lseg ns p [] q = (p = q)"
| "lseg ns p (x # xs) q = (p = Some x \<and> lseg ns (next_n (ns x)) xs q)"

text \<open>
  What the scans that stop at the first match return on a list: the node before the
  first node after the head that satisfies \<open>P\<close>.
\<close>

fun pred_of_first :: "(nat \<Rightarrow> bool) \<Rightarrow> nat list \<Rightarrow> nat option" where
  "pred_of_first P (r # x # xs) = (if P x then Some r else pred_of_first P (x # xs))"
| "pred_of_first P xs = None"

text \<open>A node that a scan accepts for a request of \<open>S\<close> bytes.\<close>

definition fits :: "(nat \<Rightarrow> Node) \<Rightarrow> size_t \<Rightarrow> nat \<Rightarrow> bool" where
  "fits ns S y \<longleftrightarrow> type_n (ns y) = HOLE \<and> S \<le> size_n (ns y)"

text \<open>
  The store of a state in which the list and the reserve stack are intact: the nodes
  from \<^verbatim>\<open>head_pointer\<close> are \<open>chain\<close>, the head node first and at least one block after
  it, the nodes from \<^verbatim>\<open>stack_head\<close> are \<open>pool\<close>, both end in \<^verbatim>\<open>NULL\<close>, no slot occurs
  twice, and \<^verbatim>\<open>previous_node\<close> points to a slot of the list or of the reserve stack.
\<close>

definition shape :: "allocator \<Rightarrow> nat list \<Rightarrow> nat list \<Rightarrow> bool" where
  "shape s chain pool \<longleftrightarrow>
     2 \<le> length chain \<and>
     lseg (node_stack s) (head_pointer s) chain None \<and>
     lseg (node_stack s) (stack_head s) pool None \<and>
     distinct (chain @ pool) \<and>
     (\<exists>pv. previous_node s = Some pv \<and> pv \<in> set (chain @ pool))"

text \<open>The blocks that a list of nodes describes, as \<^verbatim>\<open>mavalloc_print\<close> lists them.\<close>

definition blocks_of :: "(nat \<Rightarrow> Node) \<Rightarrow> nat list \<Rightarrow> block list" where
  "blocks_of ns xs = map (\<lambda>x. block_of (ns x)) xs"

text \<open>
  The list after \<^verbatim>\<open>allocate_node\<close> has carved \<open>S\<close> bytes out of the block \<open>b\<close> between
  \<open>xs\<close> and \<open>ys\<close>, with the two tests of the source.
\<close>

definition split_block :: "size_t \<Rightarrow> size_t \<Rightarrow> block list \<Rightarrow> block \<Rightarrow> block list \<Rightarrow> block list" where
  "split_block cap S xs b ys =
     (case b of (t, a, L) \<Rightarrow>
        xs @ (PROCESS, a, S) # (if cap \<le> a + S \<or> L - S = 0 then ys else (t, a + S, L - S) # ys))"

text \<open>The globals that neither a split nor a release writes.\<close>

definition same_globals :: "allocator \<Rightarrow> allocator \<Rightarrow> bool" where
  "same_globals s s' \<longleftrightarrow>
     memory_arena s' = memory_arena s \<and> memory_arena_size s' = memory_arena_size s \<and>
     heap_algo s' = heap_algo s \<and> head_pointer s' = head_pointer s \<and>
     previous_node s' = previous_node s"

text \<open>A block absorbs the block after it when that block is a hole.\<close>

fun absorb_succ :: "block \<Rightarrow> block list \<Rightarrow> block list" where
  "absorb_succ (t, a, L) [] = [(t, a, L)]"
| "absorb_succ (t, a, L) ((t', a', L') # ys) =
     (if t' = HOLE then (t, a, L + L') # ys else (t, a, L) # (t', a', L') # ys)"

text \<open>
  \<open>tiles a bs c\<close>: the first block of \<open>bs\<close> starts at position \<open>a\<close>, every block starts
  where the one before it ends, and the last one ends at \<open>c\<close>. Positions are natural
  numbers, so the sums do not wrap.
\<close>

fun tiles :: "nat \<Rightarrow> block list \<Rightarrow> nat \<Rightarrow> bool" where
  "tiles a [] c = (a = c)"
| "tiles a ((t, ad, L) # bs) c = (unat ad = a \<and> tiles (a + unat L) bs c)"

text \<open>No two consecutive blocks are both holes.\<close>

fun no_adjacent_free :: "block list \<Rightarrow> bool" where
  "no_adjacent_free (b1 # b2 # bs) = (\<not> (fst b1 = HOLE \<and> fst b2 = HOLE) \<and> no_adjacent_free (b2 # bs))"
| "no_adjacent_free bs = True"

text \<open>
  The invariant of the block list of an arena of \<open>cap\<close> bytes. Only the first block can
  start at the capacity (in an arena of 0 bytes).
\<close>

definition blocks_inv :: "size_t \<Rightarrow> block list \<Rightarrow> bool" where
  "blocks_inv cap bs \<longleftrightarrow>
     bs \<noteq> [] \<and> tiles 0 bs (unat cap) \<and> (\<forall>b \<in> set (tl bs). unat (fst (snd b)) < unat cap) \<and>
     no_adjacent_free bs"

text \<open>
  What \<^verbatim>\<open>mavalloc_free\<close> does to the block list: the first block that starts at \<open>target\<close>
  becomes a hole, merged into a hole before it and with a hole after it. Nothing changes
  when no block starts there.
\<close>

definition release :: "size_t \<Rightarrow> block list \<Rightarrow> block list" where
  "release target bs =
     (let xs = takeWhile (\<lambda>b. fst (snd b) \<noteq> target) bs
      in case dropWhile (\<lambda>b. fst (snd b) \<noteq> target) bs of
           [] \<Rightarrow> bs
         | (t, a, L) # ys \<Rightarrow>
             if xs \<noteq> [] \<and> fst (last xs) = HOLE
             then butlast xs @ absorb_succ (fst (last xs), fst (snd (last xs)), snd (snd (last xs)) + L) ys
             else xs @ absorb_succ (HOLE, a, L) ys)"

text \<open>An allocation that split a hole of the list and returned its address.\<close>

definition alloc_rel :: "size_t \<Rightarrow> size_t \<Rightarrow> size_t \<Rightarrow> block list \<Rightarrow> block list \<Rightarrow> size_t \<Rightarrow> bool" where
  "alloc_rel arena cap S bs bs' p \<longleftrightarrow>
     (\<exists>xs a L ys. bs = xs @ (HOLE, a, L) # ys \<and> S \<le> L \<and>
        bs' = split_block cap S xs (HOLE, a, L) ys \<and> p = arena + a)"

definition same_arena :: "allocator \<Rightarrow> allocator \<Rightarrow> bool" where
  "same_arena s s' \<longleftrightarrow>
     memory_arena s' = memory_arena s \<and> memory_arena_size s' = memory_arena_size s \<and>
     heap_algo s' = heap_algo s \<and> head_pointer s' = head_pointer s"

text \<open>No hole of the list has \<open>S\<close> bytes.\<close>

definition no_fit :: "size_t \<Rightarrow> block list \<Rightarrow> bool" where
  "no_fit S bs \<longleftrightarrow> (\<forall>b \<in> set bs. \<not> (fst b = HOLE \<and> S \<le> snd (snd b)))"

text \<open>
  What a strategy that scans from the head does: it returns \<^verbatim>\<open>NULL\<close> and leaves the state
  as it is, or it splits a hole of the list; the former whenever no hole has \<open>S\<close> bytes.
\<close>

definition alloc_result :: "allocator \<Rightarrow> nat list \<Rightarrow> size_t \<Rightarrow> allocator \<Rightarrow> size_t \<Rightarrow> bool" where
  "alloc_result s chain S s' p \<longleftrightarrow>
     (\<exists>chain' pool'. shape s' chain' pool' \<and> same_globals s s' \<and>
        (s' = s \<and> p = 0 \<and> chain' = chain \<or>
         alloc_rel (memory_arena s) (memory_arena_size s) S (blocks_of (node_stack s) (tl chain))
           (blocks_of (node_stack s') (tl chain')) p)) \<and>
     (no_fit S (blocks_of (node_stack s) (tl chain)) \<longrightarrow> s' = s \<and> p = 0)"

text \<open>
  Next fit: whatever node the scan selects, in the list or on the reserve stack, a call
  that returns leaves a well-formed store and either the block list as it was or the
  list after one split.
\<close>

definition alloc_effect :: "allocator \<Rightarrow> nat list \<Rightarrow> size_t \<Rightarrow> allocator \<Rightarrow> size_t \<Rightarrow> bool" where
  "alloc_effect s chain S s' p \<longleftrightarrow>
     (\<exists>chain' pool'. shape s' chain' pool' \<and> same_arena s s' \<and>
        (blocks_of (node_stack s') (tl chain') = blocks_of (node_stack s) (tl chain) \<or>
         alloc_rel (memory_arena s) (memory_arena_size s) S (blocks_of (node_stack s) (tl chain))
           (blocks_of (node_stack s') (tl chain')) p))"

text \<open>
  The states of a run. A run starts with a call of \<^verbatim>\<open>mavalloc_init\<close> that returns 0, from
  any state, and goes on with calls of \<^verbatim>\<open>mavalloc_alloc\<close> and \<^verbatim>\<open>mavalloc_free\<close> that
  return, and with calls of \<^verbatim>\<open>mavalloc_init\<close> that fail. The predicate \<open>ok\<close> restricts the
  aligned sizes that the run passes to \<^verbatim>\<open>mavalloc_init\<close> and \<^verbatim>\<open>mavalloc_alloc\<close>; a
  reachable state is a state of a run without restriction.
\<close>

inductive reaches :: "(size_t \<Rightarrow> bool) \<Rightarrow> allocator \<Rightarrow> bool" for ok :: "size_t \<Rightarrow> bool" where
  init: "mavalloc_init arena stack_mem sz algo s0 = Ret (s, 0) \<Longrightarrow> ok (ALIGN4 sz) \<Longrightarrow> reaches ok s"
| init_failed: "reaches ok s \<Longrightarrow> mavalloc_init arena stack_mem sz algo s = Ret (s', r) \<Longrightarrow> r \<noteq> 0 \<Longrightarrow>
     reaches ok s'"
| alloc: "reaches ok s \<Longrightarrow> ok (ALIGN4 sz) \<Longrightarrow> mavalloc_alloc sz s = Some (Ret (s', p)) \<Longrightarrow> reaches ok s'"
| free: "reaches ok s \<Longrightarrow> mavalloc_free ptr s = Some (Ret s') \<Longrightarrow> reaches ok s'"

definition reachable :: "allocator \<Rightarrow> bool" where
  "reachable = reaches (\<lambda>_. True)"

definition well_formed :: "allocator \<Rightarrow> bool" where
  "well_formed s \<longleftrightarrow> (\<exists>chain pool. shape s chain pool \<and>
     blocks_inv (memory_arena_size s) (blocks_of (node_stack s) (tl chain)))"

text \<open>
  Calls in sequence, for concrete runs: each takes the state that the call returns, or
  the state as it is when the call crashes or does not end.
\<close>

definition run_init :: "size_t \<Rightarrow> (nat \<Rightarrow> Node) \<Rightarrow> size_t \<Rightarrow> ALGORITHM \<Rightarrow> allocator" where
  "run_init arena mem sz algo =
     (case mavalloc_init arena (Some mem) sz algo (uninitialised mem) of
        Ret (s, r) \<Rightarrow> s | Crash \<Rightarrow> uninitialised mem)"

definition run_alloc :: "size_t \<Rightarrow> allocator \<Rightarrow> allocator" where
  "run_alloc sz s = (case mavalloc_alloc sz s of Some (Ret (s', p)) \<Rightarrow> s' | _ \<Rightarrow> s)"

definition run_free :: "size_t \<Rightarrow> allocator \<Rightarrow> allocator" where
  "run_free ptr s = (case mavalloc_free ptr s of Some (Ret s') \<Rightarrow> s' | _ \<Rightarrow> s)"

text \<open>
  The state that \<^verbatim>\<open>first_fit_test\<close> of the repository's tests sets up: an arena of 1840
  bytes, seven allocations and the release of four of them, with the arena at address
  4096.
\<close>

definition first_fit_test_setup :: allocator where
  "first_fit_test_setup =
     run_free (4096 + 1760) (run_free (4096 + 1240) (run_free (4096 + 600) (run_free 4096
       (run_alloc 80 (run_alloc 400 (run_alloc 120 (run_alloc 400 (run_alloc 240
         (run_alloc 400 (run_alloc 200 (run_init 4096 zero_memory 1840 FIRST_FIT)))))))))))"

text \<open>Properties of a block list: lengths, alignment, offsets.\<close>

definition positive_blocks :: "block list \<Rightarrow> bool" where
  "positive_blocks bs \<longleftrightarrow> (\<forall>b \<in> set bs. snd (snd b) \<noteq> 0)"

definition aligned_blocks :: "block list \<Rightarrow> bool" where
  "aligned_blocks bs \<longleftrightarrow> (\<forall>b \<in> set bs. 4 dvd fst (snd b) \<and> 4 dvd snd (snd b))"

definition offsets :: "block list \<Rightarrow> nat list" where
  "offsets bs = map (\<lambda>b. unat (fst (snd b))) bs"

definition strictly_ascending :: "block list \<Rightarrow> bool" where
  "strictly_ascending bs \<longleftrightarrow> sorted_wrt (<) (offsets bs)"

definition weakly_ascending :: "block list \<Rightarrow> bool" where
  "weakly_ascending bs \<longleftrightarrow> sorted_wrt (\<le>) (offsets bs)"

text \<open>Runs with a request of 0 bytes.\<close>

definition zero_request_state :: allocator where
  "zero_request_state = run_alloc 0 (run_init 4096 zero_memory 16 FIRST_FIT)"

definition zero_request_best_fit :: allocator where
  "zero_request_best_fit = run_alloc 0 (run_alloc 8 (run_init 4096 zero_memory 24 BEST_FIT))"

text \<open>
  Runs under next fit in which a release unlinks the node that \<^verbatim>\<open>previous_node\<close> points
  to, or leaves it last in the list.
\<close>

definition stale_cursor_state :: allocator where
  "stale_cursor_state =
     run_free (4096 + 4) (run_free 4096
       (run_alloc 4 (run_alloc 4 (run_alloc 4 (run_init 4096 zero_memory 12 NEXT_FIT)))))"

definition last_node_cursor_state :: allocator where
  "last_node_cursor_state =
     run_free (4096 + 4) (run_free 4096
       (run_alloc 4 (run_alloc 4 (run_init 4096 zero_memory 8 NEXT_FIT))))"

text \<open>
  Memory for the node array in which slot 5 holds other values than zero.
\<close>

definition stale_memory :: "nat \<Rightarrow> Node" where
  "stale_memory = zero_memory(5 := \<lparr>type_n = HOLE, address = 2, size_n = 8, next_n = None\<rparr>)"

definition reused_slot_state :: allocator where
  "reused_slot_state =
     run_free (4096 + 8) (run_free (4096 + 4) (run_free 4096
       (run_alloc 4 (run_alloc 4 (run_alloc 4 (run_init 4096 stale_memory 12 NEXT_FIT))))))"

text \<open>
  The node in position \<open>i\<close> of the linked list: position 0 is the head node, position
  \<open>i + 1\<close> is the node of block \<open>i\<close> of the list.
\<close>

fun node_at :: "allocator \<Rightarrow> nat \<Rightarrow> node_ptr" where
  "node_at s 0 = head_pointer s"
| "node_at s (Suc i) = (case node_at s i of None \<Rightarrow> None | Some p \<Rightarrow> next_n (node_stack s p))"

definition released_all_state :: allocator where
  "released_all_state =
     run_free (4096 + 8) (run_free (4096 + 4) (run_free 4096
       (run_alloc 4 (run_alloc 4 (run_alloc 4 (run_init 4096 zero_memory 12 NEXT_FIT))))))"

text \<open>
  A run in which a second \<^verbatim>\<open>mavalloc_init\<close> fails after two allocations of 8 bytes in an
  arena of 16: \<^verbatim>\<open>malloc\<close> returns \<^verbatim>\<open>NULL\<close> for the arena, the function stores it in
  \<^verbatim>\<open>memory_arena\<close> and returns -1, and the list stays as it was.
\<close>

definition failed_init_state :: allocator where
  "failed_init_state =
     (case mavalloc_init 0 None (2 ^ 63) FIRST_FIT
             (run_alloc 8 (run_alloc 8 (run_init 4096 zero_memory 16 FIRST_FIT))) of
        Ret (s, r) \<Rightarrow> s
      | Crash \<Rightarrow> uninitialised zero_memory)"

section \<open>List segments and the scans that stop at the first match\<close>

lemma lseg_append_Cons:
  "lseg ns p (xs @ y # ys) q \<longleftrightarrow> lseg ns p xs (Some y) \<and> lseg ns (next_n (ns y)) ys q"
  by (induction xs arbitrary: p) auto

lemma lseg_upd_notin:
  "x \<notin> set xs \<Longrightarrow> lseg (ns(x := v)) p xs q = lseg ns p xs q"
  by (induction xs arbitrary: p) auto

lemma lseg_upd_same_next:
  "next_n v = next_n (ns x) \<Longrightarrow> lseg (ns(x := v)) p xs q = lseg ns p xs q"
  by (induction xs arbitrary: p) auto

lemma lseg_fun: "lseg ns p xs None \<Longrightarrow> lseg ns p ys None \<Longrightarrow> xs = ys"
  by (induction xs arbitrary: p ys) (case_tac ys; auto)+

lemma pred_of_first_Some:
  "pred_of_first P xs = Some r \<Longrightarrow>
     \<exists>us hole vs. xs = us @ r # hole # vs \<and> P hole \<and> (\<forall>y \<in> set (tl (us @ [r])). \<not> P y)"
proof (induction P xs rule: pred_of_first.induct)
  case (1 P r' x xs)
  show ?case
  proof (cases "P x")
    case True
    with 1 have "r' # x # xs = [] @ r # x # xs \<and> P x \<and> (\<forall>y \<in> set (tl ([] @ [r])). \<not> P y)" by simp
    then show ?thesis by blast
  next
    case False
    with 1 obtain us hole vs where *: "x # xs = us @ r # hole # vs" "P hole" "\<forall>y \<in> set (tl (us @ [r])). \<not> P y"
      by auto
    have "r' # x # xs = (r' # us) @ r # hole # vs" using * by simp
    moreover have "\<forall>y \<in> set (tl ((r' # us) @ [r])). \<not> P y"
      using * False by (cases us) auto
    ultimately show ?thesis using * by blast
  qed
qed simp_all

lemma pred_of_first_None:
  "pred_of_first P xs = None \<Longrightarrow> \<forall>y \<in> set (tl xs). \<not> P y"
  by (induction P xs rule: pred_of_first.induct) (auto split: if_splits)

lemma first_fit_scan_lseg:
  "lseg ns (Some r) (r # x # xs) None \<Longrightarrow>
   first_fit_scan ns S r =
     Some (Ret (pred_of_first (\<lambda>y. \<not> (type_n (ns y) = PROCESS \<or> size_n (ns y) < S)) (r # x # xs)))"
proof (induction xs arbitrary: r x)
  case Nil
  then show ?case by (subst first_fit_scan.simps) auto
next
  case (Cons y ys)
  then have "first_fit_scan ns S x =
     Some (Ret (pred_of_first (\<lambda>y. \<not> (type_n (ns y) = PROCESS \<or> size_n (ns y) < S)) (x # y # ys)))"
    by simp
  with Cons.prems show ?case by (subst first_fit_scan.simps) auto
qed

lemma free_scan_lseg:
  "lseg ns (Some r) (r # x # xs) None \<Longrightarrow>
   free_scan ns t r = Some (Ret (pred_of_first (\<lambda>y. address (ns y) = t) (r # x # xs)))"
proof (induction xs arbitrary: r x)
  case Nil
  then show ?case by (subst free_scan.simps) auto
next
  case (Cons y ys)
  then have "free_scan ns t x = Some (Ret (pred_of_first (\<lambda>y. address (ns y) = t) (x # y # ys)))"
    by simp
  with Cons.prems show ?case by (subst free_scan.simps) auto
qed

section \<open>The scans of best fit, worst fit and next fit\<close>

lemma not_PROCESS_iff [simp]: "t \<noteq> PROCESS \<longleftrightarrow> t = HOLE"
  by (cases t) auto

lemma best_fit_scan_lseg:
  "lseg ns (Some r) (r # xs) None \<Longrightarrow>
   \<exists>res. best_fit_scan ns S r best m = Some res \<and>
     (res = best \<or> (\<exists>hp hole us vs. res = Some hp \<and> r # xs = us @ hp # hole # vs \<and> fits ns S hole)) \<and>
     ((\<forall>y \<in> set xs. \<not> fits ns S y) \<longrightarrow> res = best)"
proof (induction xs arbitrary: r best m)
  case Nil
  then show ?case by (subst best_fit_scan.simps) auto
next
  case (Cons y ys)
  let ?c = "type_n (ns y) = HOLE \<and> size_n (ns y) \<ge> S \<and> size_n (ns y) < m"
  let ?b = "if ?c then Some r else best"
  let ?m = "if ?c then size_n (ns y) else m"
  from Cons.prems have nx: "next_n (ns r) = Some y" and tl: "lseg ns (Some y) (y # ys) None" by auto
  from Cons.IH [OF tl, of ?b ?m] obtain res where
    res: "best_fit_scan ns S y ?b ?m = Some res"
    and alt: "res = ?b \<or> (\<exists>hp hole us vs. res = Some hp \<and> y # ys = us @ hp # hole # vs \<and> fits ns S hole)"
    and none: "(\<forall>z \<in> set ys. \<not> fits ns S z) \<longrightarrow> res = ?b"
    by blast
  have step: "best_fit_scan ns S r best m = Some res"
    using nx res by (subst best_fit_scan.simps) (auto split: if_splits)
  have "res = best \<or> (\<exists>hp hole us vs. res = Some hp \<and> r # y # ys = us @ hp # hole # vs \<and> fits ns S hole)"
  proof -
    from alt show ?thesis
    proof
      assume "res = ?b"
      then consider "res = best" | "res = Some r" "fits ns S y"
        by (auto simp: fits_def split: if_splits)
      then show ?thesis
      proof cases
        case 1
        then show ?thesis by simp
      next
        case 2
        then have "res = Some r \<and> r # y # ys = [] @ r # y # ys \<and> fits ns S y" by simp
        then show ?thesis by blast
      qed
    next
      assume "\<exists>hp hole us vs. res = Some hp \<and> y # ys = us @ hp # hole # vs \<and> fits ns S hole"
      then obtain hp hole us vs where "res = Some hp" "y # ys = us @ hp # hole # vs" "fits ns S hole"
        by blast
      then have "res = Some hp \<and> r # y # ys = (r # us) @ hp # hole # vs \<and> fits ns S hole" by simp
      then show ?thesis by blast
    qed
  qed
  moreover have "(\<forall>z \<in> set (y # ys). \<not> fits ns S z) \<longrightarrow> res = best"
    using none by (auto simp: fits_def)
  ultimately show ?case using step by blast
qed

lemma worst_fit_scan_lseg:
  "lseg ns (Some r) (r # xs) None \<Longrightarrow>
   \<exists>res. worst_fit_scan ns S r worst m = Some res \<and>
     (res = worst \<or> (\<exists>hp hole us vs. res = Some hp \<and> r # xs = us @ hp # hole # vs \<and> fits ns S hole)) \<and>
     ((\<forall>y \<in> set xs. \<not> fits ns S y) \<longrightarrow> res = worst)"
proof (induction xs arbitrary: r worst m)
  case Nil
  then show ?case by (subst worst_fit_scan.simps) auto
next
  case (Cons y ys)
  let ?c = "type_n (ns y) = HOLE \<and> size_n (ns y) \<ge> S \<and> size_n (ns y) > m"
  let ?b = "if ?c then Some r else worst"
  let ?m = "if ?c then size_n (ns y) else m"
  from Cons.prems have nx: "next_n (ns r) = Some y" and tl: "lseg ns (Some y) (y # ys) None" by auto
  from Cons.IH [OF tl, of ?b ?m] obtain res where
    res: "worst_fit_scan ns S y ?b ?m = Some res"
    and alt: "res = ?b \<or> (\<exists>hp hole us vs. res = Some hp \<and> y # ys = us @ hp # hole # vs \<and> fits ns S hole)"
    and none: "(\<forall>z \<in> set ys. \<not> fits ns S z) \<longrightarrow> res = ?b"
    by blast
  have step: "worst_fit_scan ns S r worst m = Some res"
    using nx res by (subst worst_fit_scan.simps) (auto split: if_splits)
  have "res = worst \<or> (\<exists>hp hole us vs. res = Some hp \<and> r # y # ys = us @ hp # hole # vs \<and> fits ns S hole)"
  proof -
    from alt show ?thesis
    proof
      assume "res = ?b"
      then consider "res = worst" | "res = Some r" "fits ns S y"
        by (auto simp: fits_def split: if_splits)
      then show ?thesis
      proof cases
        case 1
        then show ?thesis by simp
      next
        case 2
        then have "res = Some r \<and> r # y # ys = [] @ r # y # ys \<and> fits ns S y" by simp
        then show ?thesis by blast
      qed
    next
      assume "\<exists>hp hole us vs. res = Some hp \<and> y # ys = us @ hp # hole # vs \<and> fits ns S hole"
      then obtain hp hole us vs where "res = Some hp" "y # ys = us @ hp # hole # vs" "fits ns S hole"
        by blast
      then have "res = Some hp \<and> r # y # ys = (r # us) @ hp # hole # vs \<and> fits ns S hole" by simp
      then show ?thesis by blast
    qed
  qed
  moreover have "(\<forall>z \<in> set (y # ys). \<not> fits ns S z) \<longrightarrow> res = worst"
    using none by (auto simp: fits_def)
  ultimately show ?case using step by blast
qed

lemma next_fit_scan_closed_aux:
  "next_fit_scan ns h prev S runner = Some res \<Longrightarrow>
   (\<forall>x\<in>R. \<forall>y. next_n (ns x) = Some y \<longrightarrow> y \<in> R) \<longrightarrow> h \<in> R \<longrightarrow> runner \<in> R \<longrightarrow>
     (\<forall>r. res = Ret (Some r) \<longrightarrow> r \<in> R \<and> (\<exists>hole. next_n (ns r) = Some hole \<and> fits ns S hole))"
proof (rule next_fit_scan.raw_induct [where P = "\<lambda>ns h prev S runner res.
   (\<forall>x\<in>R. \<forall>y. next_n (ns x) = Some y \<longrightarrow> y \<in> R) \<longrightarrow> h \<in> R \<longrightarrow> runner \<in> R \<longrightarrow>
     (\<forall>r. res = Ret (Some r) \<longrightarrow> r \<in> R \<and> (\<exists>hole. next_n (ns r) = Some hole \<and> fits ns S hole))"],
   goal_cases)
  case (1 f ns h prev sz runner res)

  note IH = 1(2) and body = 1(3)
  show ?case
  proof (intro impI allI)
    fix r
    assume cl: "\<forall>x\<in>R. \<forall>y. next_n (ns x) = Some y \<longrightarrow> y \<in> R" and h: "h \<in> R"
      and run: "runner \<in> R" and res: "res = Ret (Some r)"
    show "r \<in> R \<and> (\<exists>hole. next_n (ns r) = Some hole \<and> fits ns sz hole)"
    proof (cases "next_n (ns runner)")
      case None
      with body res show ?thesis by simp
    next
      case (Some nx)
      then have nxR: "nx \<in> R" using cl run by blast
      show ?thesis
      proof (cases "type_n (ns nx) = PROCESS \<or> size_n (ns nx) < sz")
        case False
        with body Some res have "r = runner" by simp
        with False Some run show ?thesis by (auto simp: fits_def not_less)
      next
        case True
        let ?r1 = "if next_n (ns nx) = None then h else nx"
        have r1R: "?r1 \<in> R" using h nxR by simp
        from body Some True res have "?r1 \<noteq> prev" and call: "f ns h prev sz ?r1 = Some res"
          by (auto simp: Let_def split: if_splits)
        from IH [OF call] cl h r1R res show ?thesis by blast
      qed
    qed
  qed
qed

lemma next_fit_scan_closed:
  assumes "next_fit_scan ns h prev S runner = Some (Ret (Some r))"
    and "\<forall>x\<in>R. \<forall>y. next_n (ns x) = Some y \<longrightarrow> y \<in> R" and "h \<in> R" and "runner \<in> R"
  shows "r \<in> R \<and> (\<exists>hole. next_n (ns r) = Some hole \<and> fits ns S hole)"
  using next_fit_scan_closed_aux [OF assms(1), of R] assms(2-4) by blast

section \<open>The split of \<^verbatim>\<open>allocate_node\<close> on the store\<close>

lemma blocks_of_upd_notin:
  "x \<notin> set xs \<Longrightarrow> blocks_of (ns(x := v)) xs = blocks_of ns xs"
  by (simp add: blocks_of_def)

lemma blocks_of_upd_same:
  "block_of v = block_of (ns x) \<Longrightarrow> blocks_of (ns(x := v)) xs = blocks_of ns xs"
  by (induction xs) (auto simp: blocks_of_def)

lemma blocks_of_append [simp]: "blocks_of ns (xs @ ys) = blocks_of ns xs @ blocks_of ns ys"
  by (simp add: blocks_of_def)

lemma blocks_of_Cons [simp]: "blocks_of ns (x # xs) = block_of (ns x) # blocks_of ns xs"
  by (simp add: blocks_of_def)

lemma blocks_of_Nil [simp]: "blocks_of ns [] = []"
  by (simp add: blocks_of_def)

lemma tl_append_Cons: "tl ((us @ [hp]) @ ys) = tl (us @ [hp]) @ ys"
  by (cases us) auto

lemma allocate_node_live_empty:
  assumes "shape s chain []" and "chain = us @ hp # hole # vs"
  shows "allocate_node (Some hp) S s = Ret (s, 0)"
  using assms
  by (auto simp: shape_def allocate_node_def new_node_def node_malloc_def lseg_append_Cons)

lemma blocks_of_upd:
  "x \<notin> set xs \<or> block_of v = block_of (ns x) \<Longrightarrow> blocks_of (ns(x := v)) xs = blocks_of ns xs"
  by (induction xs) (auto simp: blocks_of_def)

lemmas alloc_defs = allocate_node_def new_node_def node_malloc_def node_free_def upd_node_def Let_def

lemma shapeI:
  assumes "2 \<le> length chain" and "lseg (node_stack s) (head_pointer s) chain None"
    and "lseg (node_stack s) (stack_head s) pool None" and "distinct (chain @ pool)"
    and "previous_node s = Some pv" and "pv \<in> set (chain @ pool)"
  shows "shape s chain pool"
  using assms by (simp add: shape_def)

lemma allocate_node_live:
  assumes sh: "shape s chain (new # pool)" and ch: "chain = us @ hp # hole # vs"
    and last: "memory_arena_size s \<le> address (node_stack s hole) + S \<longrightarrow> vs = []"
  shows "\<exists>s' chain' pool'.
     allocate_node (Some hp) S s = Ret (s', memory_arena s + address (node_stack s hole)) \<and>
     shape s' chain' pool' \<and> same_globals s s' \<and>
     blocks_of (node_stack s') (tl chain') =
       split_block (memory_arena_size s) S (blocks_of (node_stack s) (tl (us @ [hp])))
         (block_of (node_stack s hole)) (blocks_of (node_stack s) vs) \<and>
     (if memory_arena_size s \<le> address (node_stack s hole) + S \<or> size_n (node_stack s hole) - S = 0
      then chain' = us @ hp # new # vs \<and> pool' = hole # pool
      else chain' = us @ hp # new # hole # vs \<and> pool' = pool)"
proof -
  let ?ns = "node_stack s"
  let ?O = "address (?ns hole)" and ?L = "size_n (?ns hole)"
  let ?P = "\<lparr>type_n = PROCESS, address = ?O, size_n = S, next_n = None\<rparr>"
  from sh ch have
    seg1: "lseg ?ns (head_pointer s) us (Some hp)" and
    nhp: "next_n (?ns hp) = Some hole" and
    seg2: "lseg ?ns (next_n (?ns hole)) vs None" and
    sth: "stack_head s = Some new" and
    segp: "lseg ?ns (next_n (?ns new)) pool None" and
    dist: "distinct (us @ hp # hole # vs @ new # pool)"
    by (simp_all add: shape_def lseg_append_Cons)
  from sh ch obtain pv where pv: "previous_node s = Some pv" "pv \<in> set (us @ hp # hole # vs @ new # pool)"
    by (auto simp: shape_def)
  from dist have neq: "hp \<noteq> new" "hole \<noteq> new" "hp \<noteq> hole" and
    notin: "new \<notin> set us" "hole \<notin> set us" "hp \<notin> set us" "new \<notin> set vs" "hole \<notin> set vs" "hp \<notin> set vs"
      "new \<notin> set pool" "hole \<notin> set pool" "hp \<notin> set pool"
    by auto
  note lsimps = lseg_append_Cons lseg_upd_notin
  consider (full) "memory_arena_size s \<le> ?O + S" | (exact) "\<not> memory_arena_size s \<le> ?O + S" "?L - S = 0"
    | (part) "\<not> memory_arena_size s \<le> ?O + S" "?L - S \<noteq> 0" by blast
  then show ?thesis
  proof cases
    case full
    with last have vs: "vs = []" by simp
    define ns' where "ns' = ?ns(new := ?P, hole := (?ns hole)\<lparr>next_n := next_n (?ns new)\<rparr>,
       hp := (?ns hp)\<lparr>next_n := Some new\<rparr>)"
    define s' where "s' = s\<lparr>node_stack := ns', stack_head := Some hole\<rparr>"
    have res: "allocate_node (Some hp) S s = Ret (s', memory_arena s + ?O)"
      using nhp sth neq full by (simp add: alloc_defs s'_def ns'_def)
    have "shape s' (us @ [hp, new]) (hole # pool)"
    proof (rule shapeI)
      show "lseg (node_stack s') (head_pointer s') (us @ [hp, new]) None"
        using seg1 neq notin by (simp add: s'_def ns'_def lsimps)
      show "lseg (node_stack s') (stack_head s') (hole # pool) None"
        using segp neq notin by (simp add: s'_def ns'_def lsimps)
      show "distinct ((us @ [hp, new]) @ hole # pool)" using dist by auto
      show "previous_node s' = Some pv" using pv by (simp add: s'_def)
      show "pv \<in> set ((us @ [hp, new]) @ hole # pool)" using pv vs by auto
    qed simp
    moreover have "same_globals s s'" by (simp add: same_globals_def s'_def)
    moreover have "blocks_of (node_stack s') (tl (us @ [hp, new])) =
       split_block (memory_arena_size s) S (blocks_of ?ns (tl (us @ [hp]))) (block_of (?ns hole)) (blocks_of ?ns vs)"
      using neq notin full vs
      by (cases us) (simp_all add: s'_def ns'_def split_block_def block_of_def blocks_of_upd)
    ultimately show ?thesis using res full vs
      by (intro exI [of _ s'] exI [of _ "us @ [hp, new]"] exI [of _ "hole # pool"]) simp
  next
    case exact
    define ns' where "ns' = ?ns(new := ?P\<lparr>next_n := next_n (?ns hole)\<rparr>,
       hole := (?ns hole)\<lparr>address := ?O + S, size_n := ?L - S, next_n := next_n (?ns new)\<rparr>,
       hp := (?ns hp)\<lparr>next_n := Some new\<rparr>)"
    define s' where "s' = s\<lparr>node_stack := ns', stack_head := Some hole\<rparr>"
    have res: "allocate_node (Some hp) S s = Ret (s', memory_arena s + ?O)"
      using nhp sth neq exact by (simp add: alloc_defs s'_def ns'_def)
    have "shape s' (us @ hp # new # vs) (hole # pool)"
    proof (rule shapeI)
      show "lseg (node_stack s') (head_pointer s') (us @ hp # new # vs) None"
        using seg1 seg2 neq notin by (simp add: s'_def ns'_def lsimps)
      show "lseg (node_stack s') (stack_head s') (hole # pool) None"
        using segp neq notin by (simp add: s'_def ns'_def lsimps)
      show "distinct ((us @ hp # new # vs) @ hole # pool)" using dist by auto
      show "previous_node s' = Some pv" using pv by (simp add: s'_def)
      show "pv \<in> set ((us @ hp # new # vs) @ hole # pool)" using pv by auto
    qed simp
    moreover have "same_globals s s'" by (simp add: same_globals_def s'_def)
    moreover have "blocks_of (node_stack s') (tl (us @ hp # new # vs)) =
       split_block (memory_arena_size s) S (blocks_of ?ns (tl (us @ [hp]))) (block_of (?ns hole)) (blocks_of ?ns vs)"
      using neq notin exact
      by (cases us) (simp_all add: s'_def ns'_def split_block_def block_of_def blocks_of_upd)
    ultimately show ?thesis using res exact
      by (intro exI [of _ s'] exI [of _ "us @ hp # new # vs"] exI [of _ "hole # pool"]) simp
  next
    case part
    define ns' where "ns' = ?ns(hole := (?ns hole)\<lparr>address := ?O + S, size_n := ?L - S\<rparr>,
       new := ?P\<lparr>next_n := Some hole\<rparr>,
       hp := (?ns hp)\<lparr>next_n := Some new\<rparr>)"
    define s' where "s' = s\<lparr>node_stack := ns', stack_head := next_n (?ns new)\<rparr>"
    have res: "allocate_node (Some hp) S s = Ret (s', memory_arena s + ?O)"
      using nhp sth neq part by (simp add: alloc_defs s'_def ns'_def)
    have "shape s' (us @ hp # new # hole # vs) pool"
    proof (rule shapeI)
      show "lseg (node_stack s') (head_pointer s') (us @ hp # new # hole # vs) None"
        using seg1 seg2 neq notin by (simp add: s'_def ns'_def lsimps)
      show "lseg (node_stack s') (stack_head s') pool None"
        using segp neq notin by (simp add: s'_def ns'_def lsimps)
      show "distinct ((us @ hp # new # hole # vs) @ pool)" using dist by auto
      show "previous_node s' = Some pv" using pv by (simp add: s'_def)
      show "pv \<in> set ((us @ hp # new # hole # vs) @ pool)" using pv by auto
    qed simp
    moreover have "same_globals s s'" by (simp add: same_globals_def s'_def)
    moreover have "blocks_of (node_stack s') (tl (us @ hp # new # hole # vs)) =
       split_block (memory_arena_size s) S (blocks_of ?ns (tl (us @ [hp]))) (block_of (?ns hole)) (blocks_of ?ns vs)"
      using neq notin part
      by (cases us) (simp_all add: s'_def ns'_def split_block_def block_of_def blocks_of_upd)
    ultimately show ?thesis using res part
      by (intro exI [of _ s'] exI [of _ "us @ hp # new # hole # vs"] exI [of _ pool]) simp
  qed
qed

lemma in_set_tl: "x \<in> set (tl xs) \<Longrightarrow> x \<in> set xs"
  by (cases xs) auto

lemma allocate_node_pool_top:
  assumes "shape s chain (hp # pool)"
  shows "allocate_node (Some hp) S s = Crash"
  using assms
  by (auto simp: shape_def alloc_defs split: option.splits)

lemma allocate_node_pool_last:
  assumes "shape s chain (ts @ [hp])"
  shows "allocate_node (Some hp) S s = Crash"
  using assms
  by (auto simp: shape_def alloc_defs lseg_append_Cons split: option.splits)

lemma allocate_node_pool:
  assumes sh: "shape s chain (new # ts @ hp # hole # ws)" and pvhp: "previous_node s = Some hp"
  shows "\<exists>s' pool'.
     allocate_node (Some hp) S s = Ret (s', memory_arena s + address (node_stack s hole)) \<and>
     shape s' chain pool' \<and> same_globals s s' \<and>
     blocks_of (node_stack s') (tl chain) = blocks_of (node_stack s) (tl chain)"
proof -
  let ?ns = "node_stack s"
  let ?O = "address (?ns hole)" and ?L = "size_n (?ns hole)"
  let ?P = "\<lparr>type_n = PROCESS, address = ?O, size_n = S, next_n = None\<rparr>"
  from sh have
    len: "2 \<le> length chain" and
    segc: "lseg ?ns (head_pointer s) chain None" and
    sth: "stack_head s = Some new" and
    seg1: "lseg ?ns (next_n (?ns new)) ts (Some hp)" and
    nhp: "next_n (?ns hp) = Some hole" and
    seg2: "lseg ?ns (next_n (?ns hole)) ws None" and
    dist: "distinct (chain @ new # ts @ hp # hole # ws)"
    by (simp_all add: shape_def lseg_append_Cons)
  from dist have neq: "hp \<noteq> new" "hole \<noteq> new" "hp \<noteq> hole" and
    notin: "new \<notin> set ts" "hole \<notin> set ts" "hp \<notin> set ts" "new \<notin> set ws" "hole \<notin> set ws" "hp \<notin> set ws"
      "new \<notin> set chain" "hole \<notin> set chain" "hp \<notin> set chain"
    by auto
  from notin have notin_tl: "new \<notin> set (tl chain)" "hole \<notin> set (tl chain)" "hp \<notin> set (tl chain)"
    by (auto dest: in_set_tl)
  note lsimps = lseg_append_Cons lseg_upd_notin
  consider (full) "memory_arena_size s \<le> ?O + S" | (exact) "\<not> memory_arena_size s \<le> ?O + S" "?L - S = 0"
    | (part) "\<not> memory_arena_size s \<le> ?O + S" "?L - S \<noteq> 0" by blast
  then show ?thesis
  proof cases
    case full
    define ns' where "ns' = ?ns(new := ?P, hole := (?ns hole)\<lparr>next_n := next_n (?ns new)\<rparr>,
       hp := (?ns hp)\<lparr>next_n := Some new\<rparr>)"
    define s' where "s' = s\<lparr>node_stack := ns', stack_head := Some hole\<rparr>"
    have res: "allocate_node (Some hp) S s = Ret (s', memory_arena s + ?O)"
      using nhp sth neq full by (simp add: alloc_defs s'_def ns'_def)
    have "shape s' chain (hole # ts @ [hp, new])"
    proof (rule shapeI)
      show "lseg (node_stack s') (head_pointer s') chain None"
        using segc notin by (simp add: s'_def ns'_def lsimps)
      show "lseg (node_stack s') (stack_head s') (hole # ts @ [hp, new]) None"
        using seg1 neq notin by (simp add: s'_def ns'_def lsimps)
      show "distinct (chain @ hole # ts @ [hp, new])" using dist by auto
      show "previous_node s' = Some hp" using pvhp by (simp add: s'_def)
      show "hp \<in> set (chain @ hole # ts @ [hp, new])" by simp
    qed (rule len)
    moreover have "same_globals s s'" by (simp add: same_globals_def s'_def)
    moreover have "blocks_of (node_stack s') (tl chain) = blocks_of ?ns (tl chain)"
      using notin_tl by (simp add: s'_def ns'_def blocks_of_upd)
    ultimately show ?thesis using res by blast
  next
    case exact
    define ns' where "ns' = ?ns(new := ?P\<lparr>next_n := next_n (?ns hole)\<rparr>,
       hole := (?ns hole)\<lparr>address := ?O + S, size_n := ?L - S, next_n := next_n (?ns new)\<rparr>,
       hp := (?ns hp)\<lparr>next_n := Some new\<rparr>)"
    define s' where "s' = s\<lparr>node_stack := ns', stack_head := Some hole\<rparr>"
    have res: "allocate_node (Some hp) S s = Ret (s', memory_arena s + ?O)"
      using nhp sth neq exact by (simp add: alloc_defs s'_def ns'_def)
    have "shape s' chain (hole # ts @ hp # new # ws)"
    proof (rule shapeI)
      show "lseg (node_stack s') (head_pointer s') chain None"
        using segc notin by (simp add: s'_def ns'_def lsimps)
      show "lseg (node_stack s') (stack_head s') (hole # ts @ hp # new # ws) None"
        using seg1 seg2 neq notin by (simp add: s'_def ns'_def lsimps)
      show "distinct (chain @ hole # ts @ hp # new # ws)" using dist by auto
      show "previous_node s' = Some hp" using pvhp by (simp add: s'_def)
      show "hp \<in> set (chain @ hole # ts @ hp # new # ws)" by simp
    qed (rule len)
    moreover have "same_globals s s'" by (simp add: same_globals_def s'_def)
    moreover have "blocks_of (node_stack s') (tl chain) = blocks_of ?ns (tl chain)"
      using notin_tl by (simp add: s'_def ns'_def blocks_of_upd)
    ultimately show ?thesis using res by blast
  next
    case part
    define ns' where "ns' = ?ns(hole := (?ns hole)\<lparr>address := ?O + S, size_n := ?L - S\<rparr>,
       new := ?P\<lparr>next_n := Some hole\<rparr>,
       hp := (?ns hp)\<lparr>next_n := Some new\<rparr>)"
    define s' where "s' = s\<lparr>node_stack := ns', stack_head := next_n (?ns new)\<rparr>"
    have res: "allocate_node (Some hp) S s = Ret (s', memory_arena s + ?O)"
      using nhp sth neq part by (simp add: alloc_defs s'_def ns'_def)
    have "shape s' chain (ts @ hp # new # hole # ws)"
    proof (rule shapeI)
      show "lseg (node_stack s') (head_pointer s') chain None"
        using segc notin by (simp add: s'_def ns'_def lsimps)
      show "lseg (node_stack s') (stack_head s') (ts @ hp # new # hole # ws) None"
        using seg1 seg2 neq notin by (simp add: s'_def ns'_def lsimps)
      show "distinct (chain @ ts @ hp # new # hole # ws)" using dist by auto
      show "previous_node s' = Some hp" using pvhp by (simp add: s'_def)
      show "hp \<in> set (chain @ ts @ hp # new # hole # ws)" by simp
    qed (rule len)
    moreover have "same_globals s s'" by (simp add: same_globals_def s'_def)
    moreover have "blocks_of (node_stack s') (tl chain) = blocks_of ?ns (tl chain)"
      using notin_tl by (simp add: s'_def ns'_def blocks_of_upd)
    ultimately show ?thesis using res by blast
  qed
qed

section \<open>The merge of \<^verbatim>\<open>mavalloc_free\<close> on the store\<close>

lemmas free_defs = absorb_next_def coalesce_def node_free_def upd_node_def Let_def

lemma absorb_next_shape:
  assumes sh: "shape s chain pool" and ch: "chain = us @ r # n # vs" and us: "us \<noteq> []"
  shows "\<exists>s'. absorb_next r s = Ret s' \<and> shape s' (us @ r # vs) (n # pool) \<and> same_globals s s' \<and>
     node_stack s' = (node_stack s)
        (r := (node_stack s r)\<lparr>size_n := size_n (node_stack s r) + size_n (node_stack s n),
                              next_n := next_n (node_stack s n)\<rparr>,
         n := (node_stack s n)\<lparr>next_n := stack_head s\<rparr>)"
proof -
  let ?ns = "node_stack s"
  from sh ch have
    seg1: "lseg ?ns (head_pointer s) us (Some r)" and
    nr: "next_n (?ns r) = Some n" and
    seg2: "lseg ?ns (next_n (?ns n)) vs None" and
    segp: "lseg ?ns (stack_head s) pool None" and
    dist: "distinct (us @ r # n # vs @ pool)"
    by (simp_all add: shape_def lseg_append_Cons)
  from sh ch obtain pv where pv: "previous_node s = Some pv" "pv \<in> set (us @ r # n # vs @ pool)"
    by (auto simp: shape_def)
  from dist have neq: "r \<noteq> n" and
    notin: "n \<notin> set us" "r \<notin> set us" "n \<notin> set vs" "r \<notin> set vs" "n \<notin> set pool" "r \<notin> set pool"
    by auto
  define ns' where "ns' = ?ns(r := (?ns r)\<lparr>size_n := size_n (?ns r) + size_n (?ns n), next_n := next_n (?ns n)\<rparr>,
         n := (?ns n)\<lparr>next_n := stack_head s\<rparr>)"
  define s' where "s' = s\<lparr>node_stack := ns', stack_head := Some n\<rparr>"
  have res: "absorb_next r s = Ret s'"
    using nr neq by (simp add: free_defs s'_def ns'_def)
  have "shape s' (us @ r # vs) (n # pool)"
  proof (rule shapeI)
    show "2 \<le> length (us @ r # vs)" using us by (cases us) auto
    show "lseg (node_stack s') (head_pointer s') (us @ r # vs) None"
      using seg1 seg2 neq notin by (simp add: s'_def ns'_def lseg_append_Cons lseg_upd_notin)
    show "lseg (node_stack s') (stack_head s') (n # pool) None"
      using segp neq notin by (simp add: s'_def ns'_def lseg_append_Cons lseg_upd_notin)
    show "distinct ((us @ r # vs) @ n # pool)" using dist by auto
    show "previous_node s' = Some pv" using pv by (simp add: s'_def)
    show "pv \<in> set ((us @ r # vs) @ n # pool)" using pv by auto
  qed
  moreover have "same_globals s s'" by (simp add: same_globals_def s'_def)
  moreover have "node_stack s' = ns'" by (simp add: s'_def)
  ultimately show ?thesis using res unfolding ns'_def by blast
qed

text \<open>Absorbing the successor of a node of the chain when that successor is a hole.\<close>

lemma absorb_if_hole:
  assumes sh: "shape s chain pool" and ch: "chain = us @ r # vs" and us: "us \<noteq> []"
  shows "\<exists>s' chain' pool'.
     (case next_n (node_stack s r) of
        None \<Rightarrow> Ret s
      | Some nx \<Rightarrow> if type_n (node_stack s nx) = HOLE then absorb_next r s else Ret s) = Ret s' \<and>
     shape s' chain' pool' \<and> same_globals s s' \<and>
     blocks_of (node_stack s') (tl chain') =
       blocks_of (node_stack s) (tl us) @ absorb_succ (block_of (node_stack s r)) (blocks_of (node_stack s) vs)"
proof (cases vs)
  case Nil
  with sh ch have "next_n (node_stack s r) = None" by (simp add: shape_def lseg_append_Cons)
  moreover have "blocks_of (node_stack s) (tl chain) =
       blocks_of (node_stack s) (tl us) @ absorb_succ (block_of (node_stack s r)) (blocks_of (node_stack s) vs)"
    using Nil ch us by (cases us) (auto simp: block_of_def)
  ultimately show ?thesis using sh by (auto simp: same_globals_def)
next
  case (Cons y ys)
  with sh ch have nr: "next_n (node_stack s r) = Some y" by (simp add: shape_def lseg_append_Cons)
  show ?thesis
  proof (cases "type_n (node_stack s y) = HOLE")
    case False
    have "blocks_of (node_stack s) (tl chain) =
       blocks_of (node_stack s) (tl us) @ absorb_succ (block_of (node_stack s r)) (blocks_of (node_stack s) vs)"
      using Cons ch us False by (cases us) (auto simp: block_of_def)
    then show ?thesis using sh nr False by (auto simp: same_globals_def)
  next
    case True
    from absorb_next_shape [OF sh _ us, of r y ys] ch Cons obtain s' where
      s': "absorb_next r s = Ret s'" "shape s' (us @ r # ys) (y # pool)" "same_globals s s'"
      "node_stack s' = (node_stack s)
        (r := (node_stack s r)\<lparr>size_n := size_n (node_stack s r) + size_n (node_stack s y),
                              next_n := next_n (node_stack s y)\<rparr>,
         y := (node_stack s y)\<lparr>next_n := stack_head s\<rparr>)"
      by auto
    from sh ch Cons have dist: "distinct (us @ r # y # ys)" by (auto simp: shape_def)
    then have notin: "y \<notin> set (tl us)" "r \<notin> set (tl us)" "y \<notin> set ys" "r \<notin> set ys" "r \<noteq> y"
      by (auto dest: in_set_tl)
    have "blocks_of (node_stack s') (tl (us @ r # ys)) =
       blocks_of (node_stack s) (tl us) @ absorb_succ (block_of (node_stack s r)) (blocks_of (node_stack s) vs)"
      using Cons us True notin by (cases us) (simp_all add: s'(4) block_of_def blocks_of_upd)
    then show ?thesis using s' nr True by auto
  qed
qed

lemma shape_head:
  "shape s chain pool \<Longrightarrow> head_pointer s = Some (hd chain)"
  by (cases chain) (auto simp: shape_def)

lemma same_globals_trans: "same_globals s s1 \<Longrightarrow> same_globals s1 s2 \<Longrightarrow> same_globals s s2"
  by (simp add: same_globals_def)

lemma coalesce_shape:
  assumes sh: "shape s chain pool" and ch: "chain = us @ r # n # vs" and h: "head_pointer s = Some h"
  shows "\<exists>s' chain' pool'. coalesce h r s = Ret s' \<and> shape s' chain' pool' \<and> same_globals s s' \<and>
     blocks_of (node_stack s') (tl chain') =
       (if us \<noteq> [] \<and> type_n (node_stack s r) = HOLE
        then blocks_of (node_stack s) (tl us) @
             absorb_succ (type_n (node_stack s r), address (node_stack s r),
                          size_n (node_stack s r) + size_n (node_stack s n)) (blocks_of (node_stack s) vs)
        else blocks_of (node_stack s) (tl (us @ [r])) @
             absorb_succ (HOLE, address (node_stack s n), size_n (node_stack s n)) (blocks_of (node_stack s) vs))"
proof -
  let ?ns = "node_stack s"
  from sh ch have dist: "distinct (us @ r # n # vs)" and nr: "next_n (?ns r) = Some n"
    by (auto simp: shape_def lseg_append_Cons)
  from shape_head [OF sh] h ch have hh: "h = hd (us @ [r])" by (cases us) auto
  with dist have rh: "r \<noteq> h \<longleftrightarrow> us \<noteq> []" by (cases us) auto
  from dist have notin: "r \<notin> set (tl us)" "n \<notin> set (tl us)" "r \<notin> set vs" "n \<notin> set vs" "r \<noteq> n"
     "n \<notin> set (tl (us @ [r]))"
    by (auto dest: in_set_tl)
  show ?thesis
  proof (cases "us \<noteq> [] \<and> type_n (?ns r) = HOLE")
    case True
    then have us: "us \<noteq> []" by simp
    from absorb_next_shape [OF sh ch us] obtain s1 where
      s1: "absorb_next r s = Ret s1" "shape s1 (us @ r # vs) (n # pool)" "same_globals s s1"
      "node_stack s1 = ?ns
        (r := (?ns r)\<lparr>size_n := size_n (?ns r) + size_n (?ns n), next_n := next_n (?ns n)\<rparr>,
         n := (?ns n)\<lparr>next_n := stack_head s\<rparr>)"
      by blast
    from absorb_if_hole [OF s1(2) refl us] obtain s' chain' pool' where
      s': "(case next_n (node_stack s1 r) of None \<Rightarrow> Ret s1
            | Some nx \<Rightarrow> if type_n (node_stack s1 nx) = HOLE then absorb_next r s1 else Ret s1) = Ret s'"
      "shape s' chain' pool'" "same_globals s1 s'"
      "blocks_of (node_stack s') (tl chain') =
         blocks_of (node_stack s1) (tl us) @ absorb_succ (block_of (node_stack s1 r)) (blocks_of (node_stack s1) vs)"
      by blast
    have co: "coalesce h r s = Ret s'"
      using True rh s1(1) s'(1) by (simp add: coalesce_def)
    have "blocks_of (node_stack s1) (tl us) = blocks_of ?ns (tl us)"
      "blocks_of (node_stack s1) vs = blocks_of ?ns vs"
      "block_of (node_stack s1 r) = (type_n (?ns r), address (?ns r), size_n (?ns r) + size_n (?ns n))"
      using notin by (simp_all add: s1(4) blocks_of_upd block_of_def)
    with s'(4) True have "blocks_of (node_stack s') (tl chain') =
       (if us \<noteq> [] \<and> type_n (?ns r) = HOLE
        then blocks_of ?ns (tl us) @
             absorb_succ (type_n (?ns r), address (?ns r), size_n (?ns r) + size_n (?ns n)) (blocks_of ?ns vs)
        else blocks_of ?ns (tl (us @ [r])) @
             absorb_succ (HOLE, address (?ns n), size_n (?ns n)) (blocks_of ?ns vs))"
      by auto
    with co s'(2) same_globals_trans [OF s1(3) s'(3)] show ?thesis by blast
  next
    case False
    let ?s1 = "upd_node n (\<lambda>n. n\<lparr>type_n := HOLE\<rparr>) s"
    have ns1: "node_stack ?s1 = ?ns(n := (?ns n)\<lparr>type_n := HOLE\<rparr>)"
      by (simp add: upd_node_def)
    have sh1: "shape ?s1 chain pool"
      using sh by (simp add: shape_def upd_node_def lseg_upd_same_next)
    have g1: "same_globals s ?s1" by (simp add: same_globals_def upd_node_def)
    have ch1: "chain = (us @ [r]) @ n # vs" using ch by simp
    from absorb_if_hole [OF sh1 ch1] obtain s' chain' pool' where
      s': "(case next_n (node_stack ?s1 n) of None \<Rightarrow> Ret ?s1
            | Some nx \<Rightarrow> if type_n (node_stack ?s1 nx) = HOLE then absorb_next n ?s1 else Ret ?s1) = Ret s'"
      "shape s' chain' pool'" "same_globals ?s1 s'"
      "blocks_of (node_stack s') (tl chain') =
         blocks_of (node_stack ?s1) (tl (us @ [r])) @ absorb_succ (block_of (node_stack ?s1 n)) (blocks_of (node_stack ?s1) vs)"
      by blast
    have "\<not> (type_n (?ns r) = HOLE \<and> r \<noteq> h)" using False rh by blast
    then have co: "coalesce h r s = Ret s'"
      using nr s'(1) by (auto simp: coalesce_def)
    have "blocks_of (node_stack ?s1) (tl (us @ [r])) = blocks_of ?ns (tl (us @ [r]))"
      "blocks_of (node_stack ?s1) vs = blocks_of ?ns vs"
      "block_of (node_stack ?s1 n) = (HOLE, address (?ns n), size_n (?ns n))"
      using notin by (simp_all add: ns1 blocks_of_upd block_of_def)
    with s'(4) False have "blocks_of (node_stack s') (tl chain') =
       (if us \<noteq> [] \<and> type_n (?ns r) = HOLE
        then blocks_of ?ns (tl us) @
             absorb_succ (type_n (?ns r), address (?ns r), size_n (?ns r) + size_n (?ns n)) (blocks_of ?ns vs)
        else blocks_of ?ns (tl (us @ [r])) @
             absorb_succ (HOLE, address (?ns n), size_n (?ns n)) (blocks_of ?ns vs))"
      by auto
    with co s'(2) same_globals_trans [OF g1 s'(3)] show ?thesis by blast
  qed
qed

section \<open>The invariant of the block list under split and release\<close>

lemma tiles_le: "tiles a bs c \<Longrightarrow> a \<le> c"
  by (induction a bs c rule: tiles.induct) auto

lemma tiles_append:
  "tiles a (xs @ ys) c \<longleftrightarrow> (\<exists>m. tiles a xs m \<and> tiles m ys c)"
  by (induction a xs c rule: tiles.induct) auto

lemma naf_append_Cons:
  "no_adjacent_free (xs @ b # ys) \<longleftrightarrow> no_adjacent_free (xs @ [b]) \<and> no_adjacent_free (b # ys)"
  by (induction xs rule: no_adjacent_free.induct) (auto split: list.splits)

lemma naf_snoc:
  "no_adjacent_free (xs @ [b]) \<longleftrightarrow>
     no_adjacent_free xs \<and> (xs \<noteq> [] \<longrightarrow> \<not> (fst (last xs) = HOLE \<and> fst b = HOLE))"
  by (induction xs rule: no_adjacent_free.induct) auto

lemma naf_Cons:
  "no_adjacent_free (b # ys) \<longleftrightarrow>
     no_adjacent_free ys \<and> (ys \<noteq> [] \<longrightarrow> \<not> (fst b = HOLE \<and> fst (hd ys) = HOLE))"
  by (cases ys) auto

lemma word_add_no_wrap:
  fixes a L :: size_t
  assumes "unat a + unat L \<le> unat (c :: size_t)"
  shows "unat (a + L) = unat a + unat L"
proof -
  have "unat c < 2 ^ 64" using unsigned_less [of c] by simp
  with assms have "unat a + unat L < 2 ^ LENGTH(64)" by simp
  then show ?thesis by (rule unat_add_lem [THEN iffD1])
qed

lemma word_sub_le:
  fixes S L :: size_t
  assumes "S \<le> L"
  shows "unat (L - S) = unat L - unat S" "unat S \<le> unat L"
  using assms by (simp_all add: unat_sub word_le_nat_alt)

text \<open>The effect of a split on the invariant of the block list.\<close>

lemma split_block_inv:
  assumes inv: "blocks_inv cap (xs @ (HOLE, a, L) # ys)" and fit: "S \<le> L"
  shows "(cap \<le> a + S \<longrightarrow> ys = [])" and "blocks_inv cap (split_block cap S xs (HOLE, a, L) ys)"
proof -
  from inv obtain m where
    t1: "tiles 0 xs m" and am: "unat a = m" and t2: "tiles (m + unat L) ys (unat cap)"
    by (auto simp: blocks_inv_def tiles_append)
  from inv have K: "\<forall>b \<in> set (tl (xs @ [(HOLE, a, L)]) @ ys). unat (fst (snd b)) < unat cap"
    by (cases xs) (auto simp: blocks_inv_def)
  from inv have naf1: "no_adjacent_free (xs @ [(HOLE, a, L)])" and naf2: "no_adjacent_free ((HOLE, a, L) # ys)"
    by (simp_all add: blocks_inv_def naf_append_Cons [of xs _ ys])
  from tiles_le [OF t2] am have le: "unat a + unat L \<le> unat cap" by simp
  from word_sub_le [OF fit] have SL: "unat (L - S) = unat L - unat S" "unat S \<le> unat L" .
  from le SL have aS: "unat (a + S) = unat a + unat S"
    by (intro word_add_no_wrap [of a S cap]) simp
  have full: "ys = [] \<and> unat S = unat L \<and> m + unat L = unat cap" if "cap \<le> a + S"
  proof -
    from that have "unat cap \<le> unat a + unat S" using aS by (simp add: word_le_nat_alt)
    with le SL have eq: "unat S = unat L" "m + unat L = unat cap" using am by auto
    have "ys = []"
    proof (cases ys)
      case (Cons y ys')
      obtain t' a' L' where y: "y = (t', a', L')" by (cases y)
      with t2 Cons eq have "unat a' = unat cap" by simp
      moreover from K Cons y have "unat a' < unat cap" by simp
      ultimately show ?thesis by simp
    qed simp
    with eq show ?thesis by simp
  qed
  then show "cap \<le> a + S \<longrightarrow> ys = []" by blast
  have nz: "L - S = 0 \<longleftrightarrow> unat S = unat L"
    using SL by (auto simp: unat_eq_0 [symmetric] simp del: unat_eq_0)
  have ysh: "ys \<noteq> [] \<longrightarrow> fst (hd ys) \<noteq> HOLE" using naf2 by (simp add: naf_Cons)
  have xsl: "no_adjacent_free (xs @ [(PROCESS, a, S)])" using naf1 by (simp add: naf_snoc)
  show "blocks_inv cap (split_block cap S xs (HOLE, a, L) ys)"
  proof (cases "cap \<le> a + S \<or> L - S = 0")
    case True
    then have eq: "unat S = unat L" using full nz by blast
    have "tiles 0 (xs @ (PROCESS, a, S) # ys) (unat cap)"
      using t1 t2 am eq by (auto simp: tiles_append)
    moreover have "\<forall>b \<in> set (tl (xs @ (PROCESS, a, S) # ys)). unat (fst (snd b)) < unat cap"
      using K by (cases xs) auto
    moreover have "no_adjacent_free (xs @ (PROCESS, a, S) # ys)"
      using xsl naf2 by (simp add: naf_append_Cons [of xs _ ys] naf_Cons)
    moreover have "split_block cap S xs (HOLE, a, L) ys = xs @ (PROCESS, a, S) # ys"
      using True by (simp add: split_block_def)
    ultimately show ?thesis unfolding blocks_inv_def by simp
  next
    case False
    then have lt: "unat a + unat S < unat cap" using aS by (simp add: word_le_nat_alt not_le)
    have "tiles 0 (xs @ (PROCESS, a, S) # (HOLE, a + S, L - S) # ys) (unat cap)"
      using t1 t2 am aS SL by (auto simp: tiles_append)
    moreover have "\<forall>b \<in> set (tl (xs @ (PROCESS, a, S) # (HOLE, a + S, L - S) # ys)). unat (fst (snd b)) < unat cap"
      using K lt aS by (cases xs) auto
    moreover have "no_adjacent_free (xs @ (PROCESS, a, S) # (HOLE, a + S, L - S) # ys)"
      using xsl naf2 by (simp add: naf_append_Cons [of xs "(PROCESS, a, S)" "(HOLE, a + S, L - S) # ys"] naf_Cons)
    moreover have "split_block cap S xs (HOLE, a, L) ys = xs @ (PROCESS, a, S) # (HOLE, a + S, L - S) # ys"
      using False by (simp add: split_block_def)
    ultimately show ?thesis unfolding blocks_inv_def by simp
  qed
qed

lemma release_none:
  assumes "\<forall>b \<in> set bs. fst (snd b) \<noteq> t"
  shows "release t bs = bs"
proof -
  from assms have "dropWhile (\<lambda>b. fst (snd b) \<noteq> t) bs = []" by simp
  then show ?thesis unfolding release_def Let_def by (simp only: list.case)
qed

lemma naf_append2:
  "no_adjacent_free (xs @ b # y # ys) \<longleftrightarrow> no_adjacent_free (xs @ [b]) \<and> no_adjacent_free (b # y # ys)"
  by (rule naf_append_Cons)

lemma release_decomp:
  assumes "\<forall>b \<in> set xs. fst (snd b) \<noteq> t"
  shows "release t (xs @ (tn, t, Ln) # ys) =
     (if xs \<noteq> [] \<and> fst (last xs) = HOLE
      then butlast xs @ absorb_succ (fst (last xs), fst (snd (last xs)), snd (snd (last xs)) + Ln) ys
      else xs @ absorb_succ (HOLE, t, Ln) ys)"
proof -
  have "takeWhile (\<lambda>b. fst (snd b) \<noteq> t) (xs @ (tn, t, Ln) # ys) = xs"
    using assms by (simp add: takeWhile_tail)
  moreover have "dropWhile (\<lambda>b. fst (snd b) \<noteq> t) (xs @ (tn, t, Ln) # ys) = (tn, t, Ln) # ys"
    using assms by (simp add: dropWhile_append2)
  ultimately show ?thesis by (simp add: release_def)
qed

lemma release_cases:
  obtains (none) "\<forall>b \<in> set bs. fst (snd b) \<noteq> t" "release t bs = bs"
  | (first) xs tn Ln ys where "bs = xs @ (tn, t, Ln) # ys" "\<forall>b \<in> set xs. fst (snd b) \<noteq> t"
      "xs = [] \<or> fst (last xs) \<noteq> HOLE" "release t bs = xs @ absorb_succ (HOLE, t, Ln) ys"
  | (merge) xs ap Lp tn Ln ys where "bs = xs @ (HOLE, ap, Lp) # (tn, t, Ln) # ys"
      "\<forall>b \<in> set (xs @ [(HOLE, ap, Lp)]). fst (snd b) \<noteq> t"
      "release t bs = xs @ absorb_succ (HOLE, ap, Lp + Ln) ys"
proof (cases "\<forall>b \<in> set bs. fst (snd b) \<noteq> t")
  case True
  then show ?thesis using none release_none by blast
next
  case False
  then have "\<exists>b \<in> set bs. fst (snd b) = t" by blast
  from split_list_first_prop [OF this] obtain xs n ys where
    bs: "bs = xs @ n # ys" and n: "fst (snd n) = t" and xs: "\<forall>b \<in> set xs. fst (snd b) \<noteq> t"
    by blast
  obtain tn Ln where n': "n = (tn, t, Ln)" using n by (cases n) auto
  note rel = release_decomp [OF xs, of tn Ln ys]
  show ?thesis
  proof (cases "xs \<noteq> [] \<and> fst (last xs) = HOLE")
    case False
    then have "xs = [] \<or> fst (last xs) \<noteq> HOLE" by blast
    moreover from False have "release t bs = xs @ absorb_succ (HOLE, t, Ln) ys"
      using rel bs n' by auto
    ultimately show ?thesis using first bs n' xs by blast
  next
    case True
    then obtain xs' p where xs': "xs = xs' @ [p]" by (cases xs rule: rev_cases) auto
    with True obtain ap Lp where p: "p = (HOLE, ap, Lp)" by (cases p) auto
    have "bs = xs' @ (HOLE, ap, Lp) # (tn, t, Ln) # ys" using bs n' xs' p by simp
    moreover have "\<forall>b \<in> set (xs' @ [(HOLE, ap, Lp)]). fst (snd b) \<noteq> t" using xs xs' p by simp
    moreover have "release t bs = xs' @ absorb_succ (HOLE, ap, Lp + Ln) ys"
      using rel bs n' xs' p by simp
    ultimately show ?thesis using merge by blast
  qed
qed

text \<open>Absorbing a following hole re-establishes the invariant.\<close>

lemma absorb_succ_inv:
  assumes t: "tiles 0 (xs @ (HOLE, a, L) # ys) (unat cap)"
    and K: "\<forall>b \<in> set (tl (xs @ (HOLE, a, L) # ys)). unat (fst (snd b)) < unat cap"
    and n1: "no_adjacent_free (xs @ [(HOLE, a, L)])" and n2: "no_adjacent_free ys"
  shows "blocks_inv cap (xs @ absorb_succ (HOLE, a, L) ys)"
proof (cases ys)
  case Nil
  with assms show ?thesis by (simp add: blocks_inv_def)
next
  case (Cons y ys')
  obtain ty ay Ly where y: "y = (ty, ay, Ly)" by (cases y)
  show ?thesis
  proof (cases "ty = HOLE")
    case False
    have "no_adjacent_free (xs @ (HOLE, a, L) # y # ys')"
      using n1 n2 Cons y False by (simp add: naf_append2)
    with t K Cons y False show ?thesis by (simp add: blocks_inv_def)
  next
    case True
    from t Cons y obtain m where
      t1: "tiles 0 xs m" and am: "unat a = m" and ay: "unat ay = m + unat L"
      and t2: "tiles (m + unat L + unat Ly) ys' (unat cap)"
      by (auto simp: tiles_append)
    from tiles_le [OF t2] have "unat L + unat Ly \<le> unat cap" by simp
    then have sum: "unat (L + Ly) = unat L + unat Ly" by (rule word_add_no_wrap)
    have "tiles 0 (xs @ (HOLE, a, L + Ly) # ys') (unat cap)"
      using t1 am t2 sum by (auto simp: tiles_append add.assoc)
    moreover have "\<forall>b \<in> set (tl (xs @ (HOLE, a, L + Ly) # ys')). unat (fst (snd b)) < unat cap"
      using K Cons by (cases xs) auto
    moreover have "no_adjacent_free (xs @ (HOLE, a, L + Ly) # ys')"
      using n1 n2 Cons y True
      by (simp add: naf_append_Cons [of xs _ ys'] naf_snoc naf_Cons [of _ ys'] naf_Cons [of y ys'])
    ultimately show ?thesis using Cons y True by (simp add: blocks_inv_def)
  qed
qed

lemma release_inv:
  assumes inv: "blocks_inv cap bs"
  shows "blocks_inv cap (release t bs)"
proof (cases rule: release_cases [of bs t])
  case none
  with inv show ?thesis by simp
next
  case (first xs tn Ln ys)
  from inv first(1) have "tiles 0 (xs @ (HOLE, t, Ln) # ys) (unat cap)"
    by (auto simp: blocks_inv_def tiles_append)
  moreover from inv first(1) have "\<forall>b \<in> set (tl (xs @ (HOLE, t, Ln) # ys)). unat (fst (snd b)) < unat cap"
    by (cases xs) (auto simp: blocks_inv_def)
  moreover from inv first(1,3) have "no_adjacent_free (xs @ [(HOLE, t, Ln)])"
    by (auto simp: blocks_inv_def naf_append_Cons [of xs _ ys] naf_snoc)
  moreover from inv first(1) have "no_adjacent_free ys"
    by (simp add: blocks_inv_def naf_append_Cons [of xs _ ys] naf_Cons [of _ ys])
  ultimately show ?thesis using first(4) absorb_succ_inv by simp
next
  case (merge xs ap Lp tn Ln ys)
  from inv merge(1) obtain m where
    t1: "tiles 0 xs m" and am: "unat ap = m"
    and t2: "tiles (m + unat Lp + unat Ln) ys (unat cap)"
    by (auto simp: blocks_inv_def tiles_append)
  from tiles_le [OF t2] have "unat Lp + unat Ln \<le> unat cap" by simp
  then have sum: "unat (Lp + Ln) = unat Lp + unat Ln" by (rule word_add_no_wrap)
  have "tiles 0 (xs @ (HOLE, ap, Lp + Ln) # ys) (unat cap)"
    using t1 am t2 sum by (auto simp: tiles_append add.assoc)
  moreover from inv merge(1) have "\<forall>b \<in> set (tl (xs @ (HOLE, ap, Lp + Ln) # ys)). unat (fst (snd b)) < unat cap"
    by (cases xs) (auto simp: blocks_inv_def)
  moreover from inv merge(1) have "no_adjacent_free (xs @ [(HOLE, ap, Lp + Ln)])"
    by (simp add: blocks_inv_def naf_append_Cons [of xs _ "(tn, t, Ln) # ys"] naf_snoc)
  moreover from inv merge(1) have "no_adjacent_free ys"
    by (simp add: blocks_inv_def naf_append_Cons [of xs _ "(tn, t, Ln) # ys"] naf_Cons [of _ ys]
      naf_Cons [of _ "(tn, t, Ln) # ys"])
  ultimately show ?thesis using merge(3) absorb_succ_inv by simp
qed

section \<open>Printing and releasing on an intact store\<close>

lemma print_scan_lseg:
  "lseg ns (Some r) (r # xs) None \<Longrightarrow> print_scan ns r = Some (blocks_of ns xs)"
proof (induction xs arbitrary: r)
  case Nil
  then show ?case by (subst print_scan.simps) auto
next
  case (Cons y ys)
  then have "print_scan ns y = Some (blocks_of ns ys)" by simp
  with Cons.prems show ?case by (subst print_scan.simps) auto
qed

lemma shape_chain:
  assumes "shape s chain pool"
  obtains h x xs where "chain = h # x # xs" "head_pointer s = Some h"
    "lseg (node_stack s) (Some h) (h # x # xs) None"
proof -
  from assms obtain h x xs where "chain = h # x # xs"
    by (cases chain; cases "tl chain") (auto simp: shape_def)
  moreover with assms have "head_pointer s = Some h" by (simp add: shape_def)
  ultimately show ?thesis using that assms by (auto simp: shape_def)
qed

lemma mavalloc_print_shape:
  assumes "shape s chain pool"
  shows "mavalloc_print s = Some (blocks_of (node_stack s) (tl chain))"
proof -
  from assms obtain h x xs where c: "chain = h # x # xs" "head_pointer s = Some h"
    "lseg (node_stack s) (Some h) (h # x # xs) None" by (rule shape_chain)
  from print_scan_lseg [OF c(3)] c show ?thesis by (simp add: mavalloc_print_def)
qed

lemma size_scan_lseg:
  "lseg ns (Some r) (r # xs) None \<Longrightarrow> size_scan ns r k = Some (k + int (length xs))"
proof (induction xs arbitrary: r k)
  case Nil
  then show ?case by (subst size_scan.simps) auto
next
  case (Cons y ys)
  then have "size_scan ns y (k + 1) = Some (k + 1 + int (length ys))" by simp
  with Cons.prems show ?case by (subst size_scan.simps) auto
qed

lemma blocks_of_tl_decomp:
  "blocks_of ns (tl (us @ r # n # vs)) = blocks_of ns (tl (us @ [r])) @ block_of (ns n) # blocks_of ns vs"
  by (cases us) auto

lemma mavalloc_free_shape:
  assumes sh: "shape s chain pool"
  shows "\<exists>s' chain' pool'. mavalloc_free ptr s = Some (Ret s') \<and> shape s' chain' pool' \<and>
     same_globals s s' \<and>
     blocks_of (node_stack s') (tl chain') =
       release (ptr - memory_arena s) (blocks_of (node_stack s) (tl chain))"
proof -
  let ?ns = "node_stack s" and ?t = "ptr - memory_arena s"
  let ?P = "\<lambda>y. address (?ns y) = ?t"
  from sh obtain h x xs where c: "chain = h # x # xs" "head_pointer s = Some h"
    "lseg ?ns (Some h) (h # x # xs) None" by (rule shape_chain)
  have scan: "free_scan ?ns ?t h = Some (Ret (pred_of_first ?P chain))"
    using free_scan_lseg [OF c(3)] c(1) by simp
  show ?thesis
  proof (cases "pred_of_first ?P chain")
    case None
    from pred_of_first_None [OF None] have "\<forall>b \<in> set (blocks_of ?ns (tl chain)). fst (snd b) \<noteq> ?t"
      by (auto simp: blocks_of_def block_of_def)
    then have "release ?t (blocks_of ?ns (tl chain)) = blocks_of ?ns (tl chain)"
      by (rule release_none)
    moreover have "mavalloc_free ptr s = Some (Ret s)"
      using scan None c(2) by (simp add: mavalloc_free_def)
    ultimately show ?thesis using sh by (auto simp: same_globals_def)
  next
    case (Some r)
    from pred_of_first_Some [OF Some] obtain us n vs where
      ch: "chain = us @ r # n # vs" and n: "address (?ns n) = ?t"
      and before: "\<forall>y \<in> set (tl (us @ [r])). address (?ns y) \<noteq> ?t"
      by blast
    from coalesce_shape [OF sh ch c(2)] obtain s' chain' pool' where
      s': "coalesce h r s = Ret s'" "shape s' chain' pool'" "same_globals s s'"
      "blocks_of (node_stack s') (tl chain') =
       (if us \<noteq> [] \<and> type_n (?ns r) = HOLE
        then blocks_of ?ns (tl us) @
             absorb_succ (type_n (?ns r), address (?ns r), size_n (?ns r) + size_n (?ns n)) (blocks_of ?ns vs)
        else blocks_of ?ns (tl (us @ [r])) @
             absorb_succ (HOLE, address (?ns n), size_n (?ns n)) (blocks_of ?ns vs))"
      by blast
    have fr: "mavalloc_free ptr s = Some (Ret s')"
      using scan Some c(2) s'(1) by (simp add: mavalloc_free_def)
    let ?xs = "blocks_of ?ns (tl (us @ [r]))"
    have "\<forall>b \<in> set ?xs. fst (snd b) \<noteq> ?t"
      using before by (auto simp: blocks_of_def block_of_def)
    from release_decomp [OF this, of "type_n (?ns n)" "size_n (?ns n)" "blocks_of ?ns vs"]
    have rel: "release ?t (blocks_of ?ns (tl chain)) =
       (if ?xs \<noteq> [] \<and> fst (last ?xs) = HOLE
        then butlast ?xs @ absorb_succ (fst (last ?xs), fst (snd (last ?xs)), snd (snd (last ?xs)) + size_n (?ns n))
               (blocks_of ?ns vs)
        else ?xs @ absorb_succ (HOLE, ?t, size_n (?ns n)) (blocks_of ?ns vs))"
      using n by (simp add: ch blocks_of_tl_decomp block_of_def)
    have "blocks_of (node_stack s') (tl chain') = release ?t (blocks_of ?ns (tl chain))"
      unfolding rel s'(4) using n by (cases us) (auto simp: block_of_def)
    with fr s'(2,3) show ?thesis by blast
  qed
qed

section \<open>Allocation under the four strategies\<close>

lemma same_globals_arena: "same_globals s s' \<Longrightarrow> same_arena s s'"
  by (simp add: same_globals_def same_arena_def)

lemma blocks_of_eq_Nil [simp]: "blocks_of ns xs = [] \<longleftrightarrow> xs = []"
  by (simp add: blocks_of_def)

lemma allocate_live_step:
  assumes sh: "shape s chain pool"
    and inv: "blocks_inv (memory_arena_size s) (blocks_of (node_stack s) (tl chain))"
    and ch: "chain = us @ hp # hole # vs" and fit: "fits (node_stack s) S hole"
  shows "\<exists>s' p chain' pool'. allocate_node (Some hp) S s = Ret (s', p) \<and>
     shape s' chain' pool' \<and> same_globals s s' \<and>
     (if stack_head s = None then s' = s \<and> p = 0
      else p = memory_arena s + address (node_stack s hole) \<and>
           blocks_of (node_stack s') (tl chain') =
             split_block (memory_arena_size s) S (blocks_of (node_stack s) (tl (us @ [hp])))
               (block_of (node_stack s hole)) (blocks_of (node_stack s) vs))"
proof (cases pool)
  case Nil
  with sh have "stack_head s = None" by (simp add: shape_def)
  moreover from allocate_node_live_empty [OF sh [unfolded Nil] ch]
  have "allocate_node (Some hp) S s = Ret (s, 0)" .
  ultimately show ?thesis using sh by (auto simp: same_globals_def)
next
  case (Cons new pool')
  with sh have st: "stack_head s \<noteq> None" by (auto simp: shape_def)
  let ?ns = "node_stack s"
  from fit have b: "block_of (?ns hole) = (HOLE, address (?ns hole), size_n (?ns hole))"
    and le: "S \<le> size_n (?ns hole)" by (simp_all add: fits_def block_of_def)
  from inv have "blocks_inv (memory_arena_size s)
     (blocks_of ?ns (tl (us @ [hp])) @ (HOLE, address (?ns hole), size_n (?ns hole)) # blocks_of ?ns vs)"
    by (simp add: ch blocks_of_tl_decomp b)
  from split_block_inv(1) [OF this le]
  have last: "memory_arena_size s \<le> address (?ns hole) + S \<longrightarrow> vs = []" by simp
  from allocate_node_live [OF sh [unfolded Cons] ch last] obtain s' chain' pool'' where
    r: "allocate_node (Some hp) S s = Ret (s', memory_arena s + address (?ns hole))"
    "shape s' chain' pool''" "same_globals s s'"
    "blocks_of (node_stack s') (tl chain') =
       split_block (memory_arena_size s) S (blocks_of ?ns (tl (us @ [hp])))
         (block_of (?ns hole)) (blocks_of ?ns vs)"
    by blast
  let ?p = "memory_arena s + address (?ns hole)"
  have "if stack_head s = None then s' = s \<and> ?p = 0
      else ?p = memory_arena s + address (?ns hole) \<and>
           blocks_of (node_stack s') (tl chain') =
             split_block (memory_arena_size s) S (blocks_of ?ns (tl (us @ [hp])))
               (block_of (?ns hole)) (blocks_of ?ns vs)"
    using st r(4) by auto
  with r(1-3) show ?thesis by blast
qed

lemma shape_previous_node:
  "shape s chain pool \<Longrightarrow> r \<in> set (chain @ pool) \<Longrightarrow> shape (s\<lparr>previous_node := Some r\<rparr>) chain pool"
  by (simp add: shape_def)

lemma lseg_next_in:
  "lseg ns p xs None \<Longrightarrow> x \<in> set xs \<Longrightarrow> next_n (ns x) = Some y \<Longrightarrow> y \<in> set xs"
  by (induction xs arbitrary: p) (auto, (case_tac xs; simp))

lemma lseg_split_next:
  assumes "lseg ns p xs None" and "x \<in> set xs" and "next_n (ns x) = Some y"
  shows "\<exists>us vs. xs = us @ x # y # vs"
proof -
  from assms(2) obtain us rest where xs: "xs = us @ x # rest" by (auto simp: in_set_conv_decomp)
  with assms(1) have "lseg ns (next_n (ns x)) rest None" by (simp add: lseg_append_Cons)
  with assms(3) obtain vs where "rest = y # vs" by (cases rest) auto
  with xs show ?thesis by blast
qed

text \<open>A split at a node that a scan selected, wherever the node lies.\<close>

lemma allocate_any_step:
  assumes sh: "shape s chain pool"
    and inv: "blocks_inv (memory_arena_size s) (blocks_of (node_stack s) (tl chain))"
    and hp: "hp \<in> set (chain @ pool)" and nx: "next_n (node_stack s hp) = Some hole"
    and fit: "fits (node_stack s) S hole"
    and pv: "hp \<in> set pool \<longrightarrow> previous_node s = Some hp"
    and res: "allocate_node (Some hp) S s = Ret (s', p)"
  shows "\<exists>chain' pool'. shape s' chain' pool' \<and> same_globals s s' \<and>
     (blocks_of (node_stack s') (tl chain') = blocks_of (node_stack s) (tl chain) \<or>
      alloc_rel (memory_arena s) (memory_arena_size s) S (blocks_of (node_stack s) (tl chain))
        (blocks_of (node_stack s') (tl chain')) p)"
proof (cases "hp \<in> set chain")
  case True
  from sh have "lseg (node_stack s) (head_pointer s) chain None" by (simp add: shape_def)
  from lseg_split_next [OF this True nx] obtain us vs where ch: "chain = us @ hp # hole # vs" by blast
  from allocate_live_step [OF sh inv ch fit] res obtain chain' pool' where
    r: "shape s' chain' pool'" "same_globals s s'"
      "if stack_head s = None then s' = s \<and> p = 0
       else p = memory_arena s + address (node_stack s hole) \<and>
           blocks_of (node_stack s') (tl chain') =
             split_block (memory_arena_size s) S (blocks_of (node_stack s) (tl (us @ [hp])))
               (block_of (node_stack s hole)) (blocks_of (node_stack s) vs)"
    by auto
  show ?thesis
  proof (cases "stack_head s = None")
    case True
    with r(3) sh show ?thesis by (auto simp: same_globals_def)
  next
    case False
    from fit have b: "block_of (node_stack s hole) = (HOLE, address (node_stack s hole), size_n (node_stack s hole))"
      and le: "S \<le> size_n (node_stack s hole)" by (simp_all add: fits_def block_of_def)
    from False r(3) b le have "alloc_rel (memory_arena s) (memory_arena_size s) S
       (blocks_of (node_stack s) (tl chain)) (blocks_of (node_stack s') (tl chain')) p"
      unfolding alloc_rel_def ch blocks_of_tl_decomp by auto
    with r(1,2) show ?thesis by blast
  qed
next
  case False
  with hp have inp: "hp \<in> set pool" by simp
  with pv have pvs: "previous_node s = Some hp" by simp
  from sh have "lseg (node_stack s) (stack_head s) pool None" by (simp add: shape_def)
  from lseg_split_next [OF this inp nx] obtain ts0 ws where pool: "pool = ts0 @ hp # hole # ws" by blast
  show ?thesis
  proof (cases ts0)
    case Nil
    with allocate_node_pool_top [of s chain hp "hole # ws" S] sh pool res show ?thesis by simp
  next
    case (Cons new ts)
    from allocate_node_pool [OF sh [unfolded pool Cons, simplified] pvs, of S] res
    show ?thesis by auto
  qed
qed

lemma no_fit_blocks:
  "no_fit S (blocks_of ns xs) \<longleftrightarrow> (\<forall>y \<in> set xs. \<not> fits ns S y)"
  by (auto simp: no_fit_def blocks_of_def block_of_def fits_def)

lemma alloc_result_none:
  "shape s chain pool \<Longrightarrow> alloc_result s chain S s 0"
  by (auto simp: alloc_result_def same_globals_def)

lemma alloc_result_live:
  assumes sh: "shape s chain pool"
    and inv: "blocks_inv (memory_arena_size s) (blocks_of (node_stack s) (tl chain))"
    and ch: "chain = us @ hp # hole # vs" and fit: "fits (node_stack s) S hole"
  shows "\<exists>s' p. allocate_node (Some hp) S s = Ret (s', p) \<and> alloc_result s chain S s' p"
proof -
  from allocate_live_step [OF sh inv ch fit] obtain s' p chain' pool' where
    r: "allocate_node (Some hp) S s = Ret (s', p)" "shape s' chain' pool'" "same_globals s s'"
      "if stack_head s = None then s' = s \<and> p = 0
       else p = memory_arena s + address (node_stack s hole) \<and>
           blocks_of (node_stack s') (tl chain') =
             split_block (memory_arena_size s) S (blocks_of (node_stack s) (tl (us @ [hp])))
               (block_of (node_stack s hole)) (blocks_of (node_stack s) vs)"
    by blast
  from fit have b: "block_of (node_stack s hole) = (HOLE, address (node_stack s hole), size_n (node_stack s hole))"
    and le: "S \<le> size_n (node_stack s hole)" by (simp_all add: fits_def block_of_def)
  have "hole \<in> set (tl chain)" using ch by (cases us) auto
  with fit have nf: "\<not> no_fit S (blocks_of (node_stack s) (tl chain))"
    by (auto simp: no_fit_blocks)
  show ?thesis
  proof (cases "stack_head s = None")
    case True
    with r(4) have "s' = s" "p = 0" by simp_all
    with r(1) sh nf show ?thesis unfolding alloc_result_def same_globals_def by auto
  next
    case False
    with r(4) b le have "alloc_rel (memory_arena s) (memory_arena_size s) S
       (blocks_of (node_stack s) (tl chain)) (blocks_of (node_stack s') (tl chain')) p"
      unfolding alloc_rel_def ch blocks_of_tl_decomp by auto
    with r(1-3) nf show ?thesis unfolding alloc_result_def by blast
  qed
qed

lemma alloc_first_fit_step:
  assumes sh: "shape s chain pool"
    and inv: "blocks_inv (memory_arena_size s) (blocks_of (node_stack s) (tl chain))"
  shows "\<exists>s' p. alloc_first_fit S s = Some (Ret (s', p)) \<and> alloc_result s chain S s' p"
proof -
  let ?ns = "node_stack s"
  from sh obtain h x xs where c: "chain = h # x # xs" "head_pointer s = Some h"
    "lseg ?ns (Some h) (h # x # xs) None" by (rule shape_chain)
  have "(\<lambda>y. \<not> (type_n (?ns y) = PROCESS \<or> size_n (?ns y) < S)) = fits ?ns S"
    by (auto simp: fits_def fun_eq_iff not_less)
  with first_fit_scan_lseg [OF c(3), of S] c(1)
  have scan: "first_fit_scan ?ns S h = Some (Ret (pred_of_first (fits ?ns S) chain))"
    by (simp only:)
  show ?thesis
  proof (cases "pred_of_first (fits ?ns S) chain")
    case None
    then have "alloc_first_fit S s = Some (Ret (s, 0))"
      using scan c(2) by (simp add: alloc_first_fit_def)
    with alloc_result_none [OF sh] show ?thesis by blast
  next
    case (Some r)
    from pred_of_first_Some [OF Some] obtain us hole vs where
      ch: "chain = us @ r # hole # vs" and fit: "fits ?ns S hole" by blast
    from alloc_result_live [OF sh inv ch fit] obtain s' p where
      "allocate_node (Some r) S s = Ret (s', p)" "alloc_result s chain S s' p" by blast
    moreover then have "alloc_first_fit S s = Some (Ret (s', p))"
      using scan Some c(2) by (simp add: alloc_first_fit_def)
    ultimately show ?thesis by blast
  qed
qed

lemma alloc_best_fit_step:
  assumes sh: "shape s chain pool"
    and inv: "blocks_inv (memory_arena_size s) (blocks_of (node_stack s) (tl chain))"
  shows "\<exists>s' p. alloc_best_fit S s = Some (Ret (s', p)) \<and> alloc_result s chain S s' p"
proof -
  let ?ns = "node_stack s"
  from sh obtain h x xs where c: "chain = h # x # xs" "head_pointer s = Some h"
    "lseg ?ns (Some h) (h # x # xs) None" by (rule shape_chain)
  from best_fit_scan_lseg [OF c(3), of S None "memory_arena_size s + 1"] obtain res where
    scan: "best_fit_scan ?ns S h None (memory_arena_size s + 1) = Some res"
    and alt: "res = None \<or> (\<exists>hp hole us vs. res = Some hp \<and> h # x # xs = us @ hp # hole # vs \<and> fits ?ns S hole)"
    by blast
  have al: "alloc_best_fit S s = Some (allocate_node res S s)"
    using scan c(2) by (simp add: alloc_best_fit_def)
  from alt show ?thesis
  proof
    assume "res = None"
    with al have "alloc_best_fit S s = Some (Ret (s, 0))" by (simp add: allocate_node_def)
    with alloc_result_none [OF sh] show ?thesis by blast
  next
    assume "\<exists>hp hole us vs. res = Some hp \<and> h # x # xs = us @ hp # hole # vs \<and> fits ?ns S hole"
    then obtain hp hole us vs where res: "res = Some hp" and ch: "chain = us @ hp # hole # vs"
      and fit: "fits ?ns S hole" using c(1) by blast
    from alloc_result_live [OF sh inv ch fit] al res show ?thesis by auto
  qed
qed

lemma alloc_worst_fit_step:
  assumes sh: "shape s chain pool"
    and inv: "blocks_inv (memory_arena_size s) (blocks_of (node_stack s) (tl chain))"
  shows "\<exists>s' p. alloc_worst_fit S s = Some (Ret (s', p)) \<and> alloc_result s chain S s' p"
proof -
  let ?ns = "node_stack s"
  from sh obtain h x xs where c: "chain = h # x # xs" "head_pointer s = Some h"
    "lseg ?ns (Some h) (h # x # xs) None" by (rule shape_chain)
  from worst_fit_scan_lseg [OF c(3), of S None 0] obtain res where
    scan: "worst_fit_scan ?ns S h None 0 = Some res"
    and alt: "res = None \<or> (\<exists>hp hole us vs. res = Some hp \<and> h # x # xs = us @ hp # hole # vs \<and> fits ?ns S hole)"
    by blast
  have al: "alloc_worst_fit S s = Some (allocate_node res S s)"
    using scan c(2) by (simp add: alloc_worst_fit_def)
  from alt show ?thesis
  proof
    assume "res = None"
    with al have "alloc_worst_fit S s = Some (Ret (s, 0))" by (simp add: allocate_node_def)
    with alloc_result_none [OF sh] show ?thesis by blast
  next
    assume "\<exists>hp hole us vs. res = Some hp \<and> h # x # xs = us @ hp # hole # vs \<and> fits ?ns S hole"
    then obtain hp hole us vs where res: "res = Some hp" and ch: "chain = us @ hp # hole # vs"
      and fit: "fits ?ns S hole" using c(1) by blast
    from alloc_result_live [OF sh inv ch fit] al res show ?thesis by auto
  qed
qed

lemma alloc_result_effect: "alloc_result s chain S s' p \<Longrightarrow> alloc_effect s chain S s' p"
  unfolding alloc_result_def alloc_effect_def using same_globals_arena by blast

lemma alloc_next_fit_step:
  assumes sh: "shape s chain pool"
    and inv: "blocks_inv (memory_arena_size s) (blocks_of (node_stack s) (tl chain))"
    and res: "alloc_next_fit S s = Some (Ret (s', p))"
  shows "alloc_effect s chain S s' p"
proof -
  let ?ns = "node_stack s"
  from sh obtain h x xs where c: "chain = h # x # xs" "head_pointer s = Some h"
    "lseg ?ns (Some h) (h # x # xs) None" by (rule shape_chain)
  from sh obtain prev where prev: "previous_node s = Some prev" "prev \<in> set (chain @ pool)"
    by (auto simp: shape_def)
  from sh have segs: "lseg ?ns (head_pointer s) chain None" "lseg ?ns (stack_head s) pool None"
    by (simp_all add: shape_def)
  have closed: "\<forall>x\<in>set (chain @ pool). \<forall>y. next_n (?ns x) = Some y \<longrightarrow> y \<in> set (chain @ pool)"
    using lseg_next_in [OF segs(1)] lseg_next_in [OF segs(2)] by auto
  have hin: "h \<in> set (chain @ pool)" using c(1) by simp
  from res c(2) prev(1) obtain r where
    scan: "next_fit_scan ?ns h prev S prev = Some (Ret r)"
    by (auto simp: alloc_next_fit_def split: option.splits outcome.splits)
  show ?thesis
  proof (cases r)
    case None
    with scan res c(2) prev(1) have "s' = s" by (simp add: alloc_next_fit_def)
    with sh show ?thesis by (auto simp: alloc_effect_def same_arena_def)
  next
    case (Some hp)
    from next_fit_scan_closed [OF scan [unfolded Some] closed hin prev(2)] obtain hole where
      hp: "hp \<in> set (chain @ pool)" and nx: "next_n (?ns hp) = Some hole" and fit: "fits ?ns S hole"
      by blast
    let ?s1 = "s\<lparr>previous_node := Some hp\<rparr>"
    have al: "allocate_node (Some hp) S ?s1 = Ret (s', p)"
      using scan Some res c(2) prev(1) by (simp add: alloc_next_fit_def)
    have sh1: "shape ?s1 chain pool" using sh hp by (rule shape_previous_node)
    from allocate_any_step [OF sh1 _ hp _ _ _ al] inv nx fit
    obtain chain' pool' where
      "shape s' chain' pool'" "same_globals ?s1 s'"
      "blocks_of (node_stack s') (tl chain') = blocks_of ?ns (tl chain) \<or>
        alloc_rel (memory_arena s) (memory_arena_size s) S (blocks_of ?ns (tl chain))
          (blocks_of (node_stack s') (tl chain')) p"
      by auto
    then show ?thesis unfolding alloc_effect_def same_arena_def same_globals_def by auto
  qed
qed

lemma mavalloc_alloc_step:
  assumes sh: "shape s chain pool"
    and inv: "blocks_inv (memory_arena_size s) (blocks_of (node_stack s) (tl chain))"
    and res: "mavalloc_alloc sz s = Some (Ret (s', p))"
  shows "alloc_effect s chain (ALIGN4 sz) s' p"
proof (cases "heap_algo s")
  case FIRST_FIT
  with alloc_first_fit_step [OF sh inv, of "ALIGN4 sz"] res show ?thesis
    by (auto simp: mavalloc_alloc_def intro: alloc_result_effect)
next
  case NEXT_FIT
  with alloc_next_fit_step [OF sh inv, of "ALIGN4 sz"] res show ?thesis
    by (auto simp: mavalloc_alloc_def)
next
  case BEST_FIT
  with alloc_best_fit_step [OF sh inv, of "ALIGN4 sz"] res show ?thesis
    by (auto simp: mavalloc_alloc_def intro: alloc_result_effect)
next
  case WORST_FIT
  with alloc_worst_fit_step [OF sh inv, of "ALIGN4 sz"] res show ?thesis
    by (auto simp: mavalloc_alloc_def intro: alloc_result_effect)
qed

section \<open>Initialisation\<close>

lemma fold_link:
  "fold (\<lambda>i m. m(i := (m i)\<lparr>next_n := Some (i + 1)\<rparr>)) [0..<k] mem =
     (\<lambda>i. if i < k then (mem i)\<lparr>next_n := Some (i + 1)\<rparr> else mem i)"
  by (induction k) (auto simp: fun_eq_iff)

lemma node_stack_init_eq:
  "node_stack_init n mem s =
     s\<lparr>node_stack := (\<lambda>i. if i < n - 1 then (mem i)\<lparr>next_n := Some (i + 1)\<rparr>
                          else if i = n - 1 then (mem i)\<lparr>next_n := None\<rparr> else mem i),
       stack_head := Some 0\<rparr>"
proof -
  let ?linked = "\<lambda>i. if i < n - 1 then (mem i)\<lparr>next_n := Some (i + 1)\<rparr> else mem i"
  have "?linked(n - 1 := (?linked (n - 1))\<lparr>next_n := None\<rparr>) =
     (\<lambda>i. if i < n - 1 then (mem i)\<lparr>next_n := Some (i + 1)\<rparr>
          else if i = n - 1 then (mem i)\<lparr>next_n := None\<rparr> else mem i)"
    by (auto simp: fun_eq_iff)
  then show ?thesis
    unfolding node_stack_init_def fold_link Let_def by (simp only:)
qed

lemma lseg_upt:
  assumes "\<forall>j. i \<le> j \<and> j < n \<longrightarrow> next_n (ns j) = (if j + 1 < n then Some (j + 1) else None)"
    and "i < n"
  shows "lseg ns (Some i) [i..<n] None"
  using assms
proof (induction "n - i" arbitrary: i)
  case 0
  then show ?case by simp
next
  case (Suc k)
  show ?case
  proof (cases "i + 1 < n")
    case True
    with Suc have "lseg ns (Some (i + 1)) [i + 1..<n] None" by auto
    moreover from Suc.prems True have "next_n (ns i) = Some (i + 1)" by auto
    ultimately show ?thesis using Suc.prems by (simp add: upt_conv_Cons)
  next
    case False
    with Suc.prems have "n = i + 1" "next_n (ns i) = None" by auto
    then show ?thesis by simp
  qed
qed

lemma blocks_inv_initial: "blocks_inv cap [(HOLE, 0, cap)]"
  by (simp add: blocks_inv_def)

lemma mavalloc_init_failed:
  "mavalloc_init 0 stack_mem sz algo s0 = Ret (s0\<lparr>memory_arena := 0\<rparr>, - 1)"
  by (simp add: mavalloc_init_def)

lemma mavalloc_init_fields:
  assumes "arena \<noteq> 0"
  shows "\<exists>s. mavalloc_init arena (Some mem) sz algo s0 = Ret (s, 0) \<and>
     head_pointer s = Some 0 \<and> stack_head s = Some 2 \<and> previous_node s = Some 0 \<and>
     memory_arena s = arena \<and> memory_arena_size s = ALIGN4 sz \<and> heap_algo s = algo \<and>
     node_stack s 0 = \<lparr>type_n = HOLE, address = 0, size_n = 0, next_n = Some 1\<rparr> \<and>
     node_stack s 1 = \<lparr>type_n = HOLE, address = 0, size_n = ALIGN4 sz, next_n = None\<rparr> \<and>
     (\<forall>i. 2 \<le> i \<and> i < NODE_AMOUNT \<longrightarrow>
        next_n (node_stack s i) = (if i + 1 < NODE_AMOUNT then Some (i + 1) else None))"
  using assms
  by (simp add: mavalloc_init_def node_stack_init_eq new_node_def node_malloc_def upd_node_def
        Let_def NODE_AMOUNT_def)

lemma mavalloc_init_ok:
  assumes "arena \<noteq> 0"
  shows "\<exists>s. mavalloc_init arena (Some mem) sz algo s0 = Ret (s, 0) \<and>
     shape s [0, 1] [2..<NODE_AMOUNT] \<and>
     blocks_of (node_stack s) [1] = [(HOLE, 0, ALIGN4 sz)] \<and>
     memory_arena s = arena \<and> memory_arena_size s = ALIGN4 sz \<and> heap_algo s = algo \<and>
     previous_node s = Some 0"
proof -
  from mavalloc_init_fields [OF assms, of mem sz algo s0] obtain s where
    res: "mavalloc_init arena (Some mem) sz algo s0 = Ret (s, 0)" and
    f: "head_pointer s = Some 0" "stack_head s = Some 2" "previous_node s = Some 0"
     "memory_arena s = arena" "memory_arena_size s = ALIGN4 sz" "heap_algo s = algo"
     "node_stack s 0 = \<lparr>type_n = HOLE, address = 0, size_n = 0, next_n = Some 1\<rparr>"
     "node_stack s 1 = \<lparr>type_n = HOLE, address = 0, size_n = ALIGN4 sz, next_n = None\<rparr>" and
    links: "\<forall>i. 2 \<le> i \<and> i < NODE_AMOUNT \<longrightarrow>
        next_n (node_stack s i) = (if i + 1 < NODE_AMOUNT then Some (i + 1) else None)"
    by blast
  have "lseg (node_stack s) (Some 2) [2..<NODE_AMOUNT] None"
    using links by (intro lseg_upt) (auto simp: NODE_AMOUNT_def)
  then have "shape s [0, 1] [2..<NODE_AMOUNT]"
    using f by (auto simp: shape_def NODE_AMOUNT_def)
  moreover have "blocks_of (node_stack s) [1] = [(HOLE, 0, ALIGN4 sz)]"
    using f by (simp add: block_of_def)
  ultimately show ?thesis using res f by blast
qed

lemma mavalloc_init_cases:
  assumes "mavalloc_init arena stack_mem sz algo s0 = Ret (s, r)"
  shows "(r = 0 \<and> arena \<noteq> 0 \<and> (\<exists>mem. stack_mem = Some mem)) \<or> (r \<noteq> 0 \<and> s = s0\<lparr>memory_arena := 0\<rparr>)"
proof (cases "arena = 0")
  case True
  with assms show ?thesis by (simp add: mavalloc_init_def)
next
  case False
  with assms obtain mem where m: "stack_mem = Some mem"
    by (cases stack_mem) (auto simp: mavalloc_init_def)
  from mavalloc_init_ok [OF False, of mem sz algo s0] assms m False show ?thesis by auto
qed

section \<open>Every state of a run is well formed\<close>

lemma shape_memory_arena [simp]: "shape (s\<lparr>memory_arena := a\<rparr>) chain pool = shape s chain pool"
  by (simp add: shape_def)

lemma shape_unique: "shape s chain pool \<Longrightarrow> shape s chain' pool' \<Longrightarrow> chain' = chain"
  by (auto simp: shape_def dest: lseg_fun)

lemma alloc_rel_inv:
  assumes "blocks_inv cap bs" and "alloc_rel arena cap S bs bs' p"
  shows "blocks_inv cap bs'"
  using assms split_block_inv(2) unfolding alloc_rel_def by blast

lemma wf_init:
  assumes "mavalloc_init arena stack_mem sz algo s0 = Ret (s, 0)"
  shows "well_formed s \<and> mavalloc_print s = Some [(HOLE, 0, ALIGN4 sz)] \<and> memory_arena_size s = ALIGN4 sz"
proof -
  from mavalloc_init_cases [OF assms] obtain mem where "arena \<noteq> 0" "stack_mem = Some mem" by auto
  with mavalloc_init_ok [of arena mem sz algo s0] assms have
    sh: "shape s [0, 1] [2..<NODE_AMOUNT]" and b: "blocks_of (node_stack s) [1] = [(HOLE, 0, ALIGN4 sz)]"
    and c: "memory_arena_size s = ALIGN4 sz"
    by auto
  from mavalloc_print_shape [OF sh] b have "mavalloc_print s = Some [(HOLE, 0, ALIGN4 sz)]" by simp
  moreover have "well_formed s" unfolding well_formed_def using sh b c blocks_inv_initial [of "ALIGN4 sz"]
    by (intro exI [of _ "[0, 1]"] exI [of _ "[2..<NODE_AMOUNT]"]) simp
  ultimately show ?thesis using c by simp
qed

lemma wf_init_failed:
  assumes "well_formed s" and "mavalloc_init arena stack_mem sz algo s = Ret (s', r)" and "r \<noteq> 0"
  shows "well_formed s' \<and> mavalloc_print s' = mavalloc_print s \<and> memory_arena_size s' = memory_arena_size s"
proof -
  from mavalloc_init_cases [OF assms(2)] assms(3) have "s' = s\<lparr>memory_arena := 0\<rparr>" by auto
  with assms(1) show ?thesis by (auto simp: well_formed_def mavalloc_print_def split: option.splits)
qed

text \<open>What a returning call of \<^verbatim>\<open>mavalloc_alloc\<close> does to the printed block list.\<close>

lemma wf_alloc:
  assumes "well_formed s" and "mavalloc_alloc sz s = Some (Ret (s', p))"
  shows "well_formed s' \<and> same_arena s s' \<and>
    (\<exists>bs bs'. mavalloc_print s = Some bs \<and> mavalloc_print s' = Some bs' \<and>
       (bs' = bs \<or> alloc_rel (memory_arena s) (memory_arena_size s) (ALIGN4 sz) bs bs' p))"
proof -
  from assms(1) obtain chain pool where sh: "shape s chain pool"
    and inv: "blocks_inv (memory_arena_size s) (blocks_of (node_stack s) (tl chain))"
    by (auto simp: well_formed_def)
  from mavalloc_alloc_step [OF sh inv assms(2)] obtain chain' pool' where
    sh': "shape s' chain' pool'" and ar: "same_arena s s'" and
    eff: "blocks_of (node_stack s') (tl chain') = blocks_of (node_stack s) (tl chain) \<or>
         alloc_rel (memory_arena s) (memory_arena_size s) (ALIGN4 sz) (blocks_of (node_stack s) (tl chain))
           (blocks_of (node_stack s') (tl chain')) p"
    by (auto simp: alloc_effect_def)
  from eff inv have "blocks_inv (memory_arena_size s) (blocks_of (node_stack s') (tl chain'))"
    using alloc_rel_inv by auto
  with sh' ar have "well_formed s'" by (auto simp: well_formed_def same_arena_def)
  with ar eff mavalloc_print_shape [OF sh] mavalloc_print_shape [OF sh'] show ?thesis by simp
qed

lemma wf_free:
  assumes "well_formed s"
  shows "\<exists>s' bs. mavalloc_free ptr s = Some (Ret s') \<and> well_formed s' \<and> same_globals s s' \<and>
    mavalloc_print s = Some bs \<and> mavalloc_print s' = Some (release (ptr - memory_arena s) bs)"
proof -
  from assms(1) obtain chain pool where sh: "shape s chain pool"
    and inv: "blocks_inv (memory_arena_size s) (blocks_of (node_stack s) (tl chain))"
    by (auto simp: well_formed_def)
  from mavalloc_free_shape [OF sh, of ptr] obtain s' chain' pool' where
    r: "mavalloc_free ptr s = Some (Ret s')" "shape s' chain' pool'" "same_globals s s'"
     "blocks_of (node_stack s') (tl chain') =
       release (ptr - memory_arena s) (blocks_of (node_stack s) (tl chain))"
    by blast
  from release_inv [OF inv] r(4) r(3) have "blocks_inv (memory_arena_size s') (blocks_of (node_stack s') (tl chain'))"
    by (simp add: same_globals_def)
  with r(2) have "well_formed s'" by (auto simp: well_formed_def)
  with r mavalloc_print_shape [OF sh] mavalloc_print_shape [OF r(2)] show ?thesis by simp
qed

lemma reaches_wf: "reaches ok s \<Longrightarrow> well_formed s"
proof (induction rule: reaches.induct)
  case (init arena stack_mem sz algo s0 s)
  then show ?case using wf_init by blast
next
  case (init_failed s arena stack_mem sz algo s' r)
  then show ?case using wf_init_failed by blast
next
  case (alloc s sz s' p)
  then show ?case using wf_alloc by blast
next
  case (free s ptr s')
  with wf_free [of s ptr] show ?case by auto
qed

lemma wf_print:
  "well_formed s \<Longrightarrow> \<exists>bs. mavalloc_print s = Some bs \<and> blocks_inv (memory_arena_size s) bs"
  using mavalloc_print_shape by (auto simp: well_formed_def)

lemma reachable_wf: "reachable s \<Longrightarrow> well_formed s"
  by (simp add: reachable_def reaches_wf)

lemma reachable_free: "reachable s \<Longrightarrow> mavalloc_free ptr s = Some (Ret s') \<Longrightarrow> reachable s'"
  unfolding reachable_def by (rule reaches.free)

lemma reachable_alloc: "reachable s \<Longrightarrow> mavalloc_alloc sz s = Some (Ret (s', p)) \<Longrightarrow> reachable s'"
  unfolding reachable_def by (rule reaches.alloc) simp_all

lemma release_noop:
  assumes naf: "no_adjacent_free bs"
    and none: "\<forall>b \<in> set bs. \<not> (fst b = PROCESS \<and> fst (snd b) = t)"
  shows "release t bs = bs"
proof (cases rule: release_cases [of bs t])
  case none
  then show ?thesis by simp
next
  case (first xs tn Ln ys)
  with none have tn: "tn = HOLE" by (cases tn) auto
  have "absorb_succ (HOLE, t, Ln) ys = (HOLE, t, Ln) # ys"
  proof (cases ys)
    case (Cons y ys')
    obtain ty ay Ly where y: "y = (ty, ay, Ly)" by (cases y)
    from naf first(1) tn Cons y have "ty \<noteq> HOLE"
      by (simp add: naf_append2)
    with Cons y show ?thesis by simp
  qed simp
  with first tn show ?thesis by simp
next
  case (merge xs ap Lp tn Ln ys)
  with none have "tn = HOLE" by (cases tn) auto
  with naf merge(1) show ?thesis
    by (simp add: naf_append2)
qed

section \<open>Concrete runs\<close>

lemma reachable_run_init: "arena \<noteq> 0 \<Longrightarrow> reachable (run_init arena mem sz algo)"
proof -
  assume "arena \<noteq> 0"
  from mavalloc_init_ok [OF this, of mem sz algo "uninitialised mem"] obtain s where
    s: "mavalloc_init arena (Some mem) sz algo (uninitialised mem) = Ret (s, 0)" by blast
  then have "reachable s" unfolding reachable_def by (rule reaches.init) simp
  with s show ?thesis by (simp add: run_init_def)
qed

lemma reachable_run_alloc: "reachable s \<Longrightarrow> reachable (run_alloc sz s)"
  by (auto simp: run_alloc_def split: option.splits outcome.splits intro: reachable_alloc)

lemma reachable_run_free: "reachable s \<Longrightarrow> reachable (run_free ptr s)"
  by (auto simp: run_free_def split: option.splits outcome.splits intro: reachable_free)

lemmas eval_simps = run_init_def run_alloc_def run_free_def mavalloc_init_def node_stack_init_eq
  new_node_def node_malloc_def node_free_def upd_node_def allocate_node_def Let_def
  NODE_AMOUNT_def uninitialised_def zero_memory_def ALIGN4_def
  mavalloc_alloc_def alloc_first_fit_def alloc_next_fit_def alloc_best_fit_def alloc_worst_fit_def
  first_fit_scan.simps next_fit_scan.simps best_fit_scan.simps worst_fit_scan.simps
  mavalloc_free_def free_scan.simps coalesce_def absorb_next_def
  mavalloc_print_def print_scan.simps block_of_def

lemma first_fit_test_setup_reachable: "reachable first_fit_test_setup"
  by (simp add: first_fit_test_setup_def Let_def reachable_run_init reachable_run_alloc reachable_run_free)

lemma first_fit_test_setup_print:
  "mavalloc_print first_fit_test_setup =
     Some [(HOLE, 0, 200), (PROCESS, 200, 400), (HOLE, 600, 240), (PROCESS, 840, 400),
           (HOLE, 1240, 120), (PROCESS, 1360, 400), (HOLE, 1760, 80)]"
  by (simp add: first_fit_test_setup_def eval_simps)

section \<open>Alignment and lengths along a run\<close>

lemma tiles_offsets_ge: "tiles a bs c \<Longrightarrow> \<forall>b \<in> set bs. a \<le> unat (fst (snd b))"
  by (induction a bs c rule: tiles.induct) auto

lemma tiles_sorted: "tiles a bs c \<Longrightarrow> sorted_wrt (\<le>) (offsets bs)"
proof (induction a bs c rule: tiles.induct)
  case (2 a t ad L bs c)
  then have "tiles (a + unat L) bs c" and "unat ad = a" by simp_all
  from tiles_offsets_ge [OF this(1)] this(2) 2 show ?case by (auto simp: offsets_def)
qed (simp add: offsets_def)

lemma tiles_strictly_sorted:
  "tiles a bs c \<Longrightarrow> positive_blocks bs \<Longrightarrow> sorted_wrt (<) (offsets bs)"
proof (induction a bs c rule: tiles.induct)
  case (2 a t ad L bs c)
  then have t: "tiles (a + unat L) bs c" and ad: "unat ad = a" and L: "L \<noteq> 0"
    and p: "positive_blocks bs" by (simp_all add: positive_blocks_def)
  from L have "0 < unat L" by (simp add: unat_gt_0)
  with tiles_offsets_ge [OF t] ad have "\<forall>b \<in> set bs. unat ad < unat (fst (snd b))" by fastforce
  with 2 t p show ?case by (simp add: offsets_def)
qed (simp add: offsets_def)

lemma absorb_succ_aligned:
  "aligned_blocks ((t, a, L) # ys) \<Longrightarrow> aligned_blocks (absorb_succ (t, a, L) ys)"
proof (cases ys)
  case (Cons y ys')
  obtain ty ay Ly where y: "y = (ty, ay, Ly)" by (cases y)
  assume "aligned_blocks ((t, a, L) # ys)"
  with Cons y show ?thesis by (cases "ty = HOLE") (simp_all add: aligned_blocks_def)
qed simp

lemma aligned_append: "aligned_blocks (xs @ ys) \<longleftrightarrow> aligned_blocks xs \<and> aligned_blocks ys"
  by (auto simp: aligned_blocks_def)

lemma release_aligned:
  assumes "aligned_blocks bs"
  shows "aligned_blocks (release t bs)"
proof (cases rule: release_cases [of bs t])
  case none
  with assms show ?thesis by simp
next
  case (first xs tn Ln ys)
  with assms have "aligned_blocks xs" "aligned_blocks ((HOLE, t, Ln) # ys)"
    by (auto simp: aligned_blocks_def)
  with first(4) absorb_succ_aligned show ?thesis by (simp add: aligned_append)
next
  case (merge xs ap Lp tn Ln ys)
  with assms have "aligned_blocks xs" "aligned_blocks ((HOLE, ap, Lp + Ln) # ys)"
    by (auto simp: aligned_blocks_def)
  with merge(3) absorb_succ_aligned show ?thesis by (simp add: aligned_append)
qed

lemma alloc_rel_aligned:
  assumes "aligned_blocks bs" and "4 dvd S" and "alloc_rel arena cap S bs bs' p"
  shows "aligned_blocks bs'"
proof -
  from assms(3) obtain xs a L ys where bs: "bs = xs @ (HOLE, a, L) # ys"
    and bs': "bs' = split_block cap S xs (HOLE, a, L) ys" by (auto simp: alloc_rel_def)
  from assms(1,2) bs show ?thesis unfolding bs'
    by (cases "cap \<le> a + S \<or> L - S = 0") (simp_all add: split_block_def aligned_blocks_def ball_Un)
qed

lemma alloc_rel_positive:
  assumes "positive_blocks bs" and "S \<noteq> 0" and "alloc_rel arena cap S bs bs' p"
  shows "positive_blocks bs'"
proof -
  from assms(3) obtain xs a L ys where bs: "bs = xs @ (HOLE, a, L) # ys"
    and bs': "bs' = split_block cap S xs (HOLE, a, L) ys" by (auto simp: alloc_rel_def)
  from assms(1,2) bs show ?thesis unfolding bs'
    by (cases "cap \<le> a + S \<or> L - S = 0") (simp_all add: split_block_def positive_blocks_def ball_Un)
qed

lemma tiles_pair_bound:
  "tiles m ((t, a, L) # (t', a', L') # ys) c \<Longrightarrow> unat L + unat L' \<le> c"
  using tiles_le [of "m + unat L + unat L'" ys c] by simp

lemma release_positive:
  assumes inv: "blocks_inv cap bs" and pos: "positive_blocks bs"
  shows "positive_blocks (release t bs)"
proof -
  have absorb: "positive_blocks (absorb_succ (HOLE, a, L) ys)"
    if "L \<noteq> 0" "positive_blocks ys" "tiles m ((HOLE, a, L) # ys) (unat cap)" for a L ys m
  proof (cases ys)
    case Nil
    with that show ?thesis by (simp add: positive_blocks_def)
  next
    case (Cons y ys')
    obtain ty ay Ly where y: "y = (ty, ay, Ly)" by (cases y)
    from that(3) Cons y have "unat L + unat Ly \<le> unat cap" using tiles_pair_bound by blast
    then have "unat (L + Ly) = unat L + unat Ly" by (rule word_add_no_wrap)
    moreover from that(1) have "0 < unat L" by (simp add: unat_gt_0)
    ultimately have "L + Ly \<noteq> 0" by (metis add_is_0 less_numeral_extra(3) unat_eq_0 unsigned_0)
    with that Cons y show ?thesis by (auto simp: positive_blocks_def)
  qed
  show ?thesis
  proof (cases rule: release_cases [of bs t])
    case none
    with pos show ?thesis by simp
  next
    case (first xs tn Ln ys)
    from inv first(1) obtain m where "tiles m ((HOLE, t, Ln) # ys) (unat cap)"
      by (auto simp: blocks_inv_def tiles_append)
    with absorb [of Ln ys m t] pos first(1) have "positive_blocks (absorb_succ (HOLE, t, Ln) ys)"
      by (auto simp: positive_blocks_def)
    with pos first show ?thesis by (auto simp: positive_blocks_def)
  next
    case (merge xs ap Lp tn Ln ys)
    from inv merge(1) obtain m where t: "tiles m ((HOLE, ap, Lp) # (tn, t, Ln) # ys) (unat cap)"
      by (auto simp: blocks_inv_def tiles_append)
    from tiles_pair_bound [OF t] have sum: "unat (Lp + Ln) = unat Lp + unat Ln" by (rule word_add_no_wrap)
    moreover from pos merge(1) have "0 < unat Lp" by (auto simp: positive_blocks_def unat_gt_0)
    ultimately have nz: "Lp + Ln \<noteq> 0" by (metis add_is_0 less_numeral_extra(3) unat_eq_0 unsigned_0)
    from t sum have "tiles m ((HOLE, ap, Lp + Ln) # ys) (unat cap)"
      by (simp add: add.assoc)
    with absorb [of "Lp + Ln" ys m ap] nz pos merge(1)
    have "positive_blocks (absorb_succ (HOLE, ap, Lp + Ln) ys)"
      by (auto simp: positive_blocks_def)
    with pos merge show ?thesis by (auto simp: positive_blocks_def)
  qed
qed

lemma ALIGN4_dvd: "4 dvd ALIGN4 sz"
  by (simp add: ALIGN4_def)

lemma word_dvd4_unat:
  fixes w :: size_t
  assumes "4 dvd w"
  shows "4 dvd unat w"
proof -
  from assms obtain k where "w = 4 * k" by (auto simp: dvd_def)
  then have "unat w = (4 * unat k) mod 2 ^ 64" by (simp add: unat_word_ariths)
  moreover have "(4::nat) dvd 2 ^ 64" by simp
  ultimately show ?thesis by (simp add: dvd_mod_iff)
qed

text \<open>The three invariants of the printed list along every run.\<close>

lemma reaches_aligned:
  "reaches ok s \<Longrightarrow> \<exists>bs. mavalloc_print s = Some bs \<and> aligned_blocks bs \<and> 4 dvd memory_arena_size s"
proof (induction rule: reaches.induct)
  case (init arena stack_mem sz algo s0 s)
  with wf_init [OF init(1)] show ?case by (simp add: aligned_blocks_def ALIGN4_dvd)
next
  case (init_failed s arena stack_mem sz algo s' r)
  from reaches_wf [OF init_failed(1)] have "well_formed s" .
  from wf_init_failed [OF this init_failed(2,3)] init_failed(4) show ?case by simp
next
  case (alloc s sz s' p)
  from reaches_wf [OF alloc(1)] have "well_formed s" .
  from wf_alloc [OF this alloc(3)] alloc(4) show ?case
    using alloc_rel_aligned [OF _ ALIGN4_dvd] by (auto simp: same_arena_def)
next
  case (free s ptr s')
  from reaches_wf [OF free(1)] have "well_formed s" .
  from wf_free [OF this, of ptr] free(2,3) show ?case
    using release_aligned by (auto simp: same_globals_def)
qed

lemma reaches_positive:
  "reaches (\<lambda>n. n \<noteq> 0) s \<Longrightarrow> \<exists>bs. mavalloc_print s = Some bs \<and> positive_blocks bs"
proof (induction rule: reaches.induct)
  case (init arena stack_mem sz algo s0 s)
  with wf_init [OF init(1)] show ?case by (simp add: positive_blocks_def)
next
  case (init_failed s arena stack_mem sz algo s' r)
  from reaches_wf [OF init_failed(1)] have "well_formed s" .
  from wf_init_failed [OF this init_failed(2,3)] init_failed(4) show ?case by simp
next
  case (alloc s sz s' p)
  from reaches_wf [OF alloc(1)] have "well_formed s" .
  from wf_alloc [OF this alloc(3)] alloc(2,4) show ?case
    using alloc_rel_positive by auto
next
  case (free s ptr s')
  from reaches_wf [OF free(1)] have w: "well_formed s" .
  from wf_print [OF w] free(3) obtain bs where
    bs: "mavalloc_print s = Some bs" "blocks_inv (memory_arena_size s) bs" "positive_blocks bs" by auto
  from wf_free [OF w, of ptr] free(2) bs(1) have "mavalloc_print s' = Some (release (ptr - memory_arena s) bs)"
    by auto
  with release_positive [OF bs(2,3)] show ?case by simp
qed

lemma reaches_run_init:
  "arena \<noteq> 0 \<Longrightarrow> ok (ALIGN4 sz) \<Longrightarrow> reaches ok (run_init arena mem sz algo)"
proof -
  assume a: "arena \<noteq> 0" and ok: "ok (ALIGN4 sz)"
  from mavalloc_init_ok [OF a, of mem sz algo "uninitialised mem"] obtain s where
    s: "mavalloc_init arena (Some mem) sz algo (uninitialised mem) = Ret (s, 0)" by blast
  from reaches.init [OF s, of ok] ok have "reaches ok s" by simp
  with s show ?thesis by (simp add: run_init_def)
qed

lemma reaches_run_alloc: "reaches ok s \<Longrightarrow> ok (ALIGN4 sz) \<Longrightarrow> reaches ok (run_alloc sz s)"
  by (auto simp: run_alloc_def split: option.splits outcome.splits intro: reaches.alloc)

lemma reaches_run_free: "reaches ok s \<Longrightarrow> reaches ok (run_free ptr s)"
  by (auto simp: run_free_def split: option.splits outcome.splits intro: reaches.free)

lemma first_fit_test_setup_nonzero: "reaches (\<lambda>n. n \<noteq> 0) first_fit_test_setup"
  unfolding first_fit_test_setup_def
  by (intro reaches_run_free reaches_run_alloc reaches_run_init) (simp_all add: ALIGN4_def)

section \<open>A cursor on the reserve stack\<close>

lemma stale_cursor_state_fields:
  "head_pointer stale_cursor_state = Some 0"
  "previous_node stale_cursor_state = Some 3"
  "heap_algo stale_cursor_state = NEXT_FIT"
  "stack_head stale_cursor_state = Some 3"
  by (simp_all add: stale_cursor_state_def eval_simps)

lemma stale_cursor_state_nodes:
  "node_stack stale_cursor_state 0 = \<lparr>type_n = HOLE, address = 0, size_n = 0, next_n = Some 2\<rparr>"
  "node_stack stale_cursor_state 2 = \<lparr>type_n = HOLE, address = 0, size_n = 8, next_n = Some 4\<rparr>"
  "node_stack stale_cursor_state 4 = \<lparr>type_n = PROCESS, address = 8, size_n = 4, next_n = None\<rparr>"
  "node_stack stale_cursor_state 3 = \<lparr>type_n = PROCESS, address = 4, size_n = 4, next_n = Some 1\<rparr>"
  "node_stack stale_cursor_state (Suc 0) = \<lparr>type_n = HOLE, address = 8, size_n = 4, next_n = Some 5\<rparr>"
  by (simp_all add: stale_cursor_state_def eval_simps)

lemma stale_cursor_state_rest:
  "5 \<le> i \<Longrightarrow> i < 199 \<Longrightarrow>
     node_stack stale_cursor_state i = \<lparr>type_n = HOLE, address = 0, size_n = 0, next_n = Some (i + 1)\<rparr>"
  "node_stack stale_cursor_state 199 = \<lparr>type_n = HOLE, address = 0, size_n = 0, next_n = None\<rparr>"
  by (simp_all add: stale_cursor_state_def eval_simps)

lemma stale_cursor_scan_diverges_aux:
  "next_fit_scan ns h prev sz runner = Some res \<Longrightarrow>
     \<not> (ns = node_stack stale_cursor_state \<and> h = 0 \<and> prev = 3 \<and> sz = 16 \<and>
        runner \<in> {0, 1, 2, 3} \<union> {5..<199})"
proof (rule next_fit_scan.raw_induct [where P = "\<lambda>ns h prev sz runner res.
     \<not> (ns = node_stack stale_cursor_state \<and> h = 0 \<and> prev = 3 \<and> sz = 16 \<and>
        runner \<in> {0, 1, 2, 3} \<union> {5..<199})"], goal_cases)
  case (1 f ns h prev sz runner res)
  note IH = 1(2) and body = 1(3)
  show ?case
  proof
    assume a: "ns = node_stack stale_cursor_state \<and> h = 0 \<and> prev = 3 \<and> sz = 16 \<and>
        runner \<in> {0, 1, 2, 3} \<union> {5..<199}"
    then have eqs: "ns = node_stack stale_cursor_state" "h = 0" "prev = 3" "sz = 16" by simp_all
    from a consider "runner = 0" | "runner = 1" | "runner = 2" | "runner = 3"
      | "5 \<le> runner" "runner < 198" | "runner = 198" by force
    then obtain r1 where r1: "f ns h prev sz r1 = Some res" "r1 \<in> {0, 1, 2, 3} \<union> {5..<199}"
    proof cases
      case 1
      with eqs body have "f ns h prev sz 2 = Some res"
        by (simp add: stale_cursor_state_nodes)
      then show ?thesis using that by simp
    next
      case 2
      with eqs body have "f ns h prev sz 5 = Some res"
        by (simp add: stale_cursor_state_nodes stale_cursor_state_rest)
      then show ?thesis using that by simp
    next
      case 3
      with eqs body have "f ns h prev sz 0 = Some res"
        by (simp add: stale_cursor_state_nodes)
      then show ?thesis using that by simp
    next
      case 4
      with eqs body have "f ns h prev sz 1 = Some res"
        by (simp add: stale_cursor_state_nodes)
      then show ?thesis using that by simp
    next
      case 5
      with eqs body have "f ns h prev sz (runner + 1) = Some res"
        by (simp add: stale_cursor_state_rest)
      moreover from 5 have "runner + 1 \<in> {0, 1, 2, 3} \<union> {5..<199}" by simp
      ultimately show ?thesis using that by blast
    next
      case 6
      with eqs body have "f ns h prev sz 0 = Some res"
        by (simp add: stale_cursor_state_rest)
      then show ?thesis using that by simp
    qed
    from IH [OF r1(1)] a r1(2) show False by simp
  qed
qed

lemma stale_cursor_scan_diverges:
  "next_fit_scan (node_stack stale_cursor_state) 0 3 16 3 = None"
proof (cases "next_fit_scan (node_stack stale_cursor_state) 0 3 16 3")
  case (Some res)
  from stale_cursor_scan_diverges_aux [OF Some] show ?thesis by simp
qed simp

section \<open>Release after a split\<close>

lemma absorb_succ_not_hole:
  "ys = [] \<or> fst (hd ys) \<noteq> HOLE \<Longrightarrow> absorb_succ (t, a, L) ys = (t, a, L) # ys"
  by (cases ys) auto

lemma release_split_block:
  assumes inv: "blocks_inv cap (xs @ (HOLE, a, L) # ys)"
    and pos: "positive_blocks (xs @ (HOLE, a, L) # ys)" and fit: "S \<le> L"
  shows "release a (split_block cap S xs (HOLE, a, L) ys) = xs @ (HOLE, a, L) # ys"
proof -
  from inv obtain m where
    t1: "tiles 0 xs m" and am: "unat a = m" and t2: "tiles (m + unat L) ys (unat cap)"
    by (auto simp: blocks_inv_def tiles_append)
  from inv have t: "tiles 0 (xs @ (HOLE, a, L) # ys) (unat cap)" by (simp add: blocks_inv_def)
  from tiles_strictly_sorted [OF t pos] have "\<forall>b \<in> set xs. unat (fst (snd b)) < unat a"
    by (auto simp: offsets_def sorted_wrt_append)
  then have before: "\<forall>b \<in> set xs. fst (snd b) \<noteq> a" by auto
  from inv have naf: "no_adjacent_free (xs @ (HOLE, a, L) # ys)" by (simp add: blocks_inv_def)
  from naf have n1: "no_adjacent_free (xs @ [(HOLE, a, L)])" and n2: "no_adjacent_free ((HOLE, a, L) # ys)"
    using naf_append_Cons [of xs "(HOLE, a, L)" ys] by simp_all
  from n1 have lastx: "\<not> (xs \<noteq> [] \<and> fst (last xs) = HOLE)" by (auto simp: naf_snoc)
  from n2 have hdy: "ys = [] \<or> fst (hd ys) \<noteq> HOLE" by (auto simp: naf_Cons)
  from tiles_le [OF t2] am have bound: "unat a + unat L \<le> unat cap" by simp
  from word_sub_le [OF fit] have SL: "unat S \<le> unat L" by simp
  with bound have "unat a + unat S \<le> unat cap" by simp
  from word_add_no_wrap [OF this] have aS: "unat (a + S) = unat a + unat S" .
  show ?thesis
  proof (cases "cap \<le> a + S \<or> L - S = 0")
    case True
    have "L = S"
    proof (cases "L - S = 0")
      case False
      with True have "unat cap \<le> unat (a + S)" by (simp add: word_le_nat_alt)
      with aS bound SL have "unat L = unat S" by simp
      then show ?thesis by (simp add: word_unat_eq_iff)
    qed simp
    with True have "split_block cap S xs (HOLE, a, L) ys = xs @ (PROCESS, a, L) # ys"
      by (simp add: split_block_def)
    with release_decomp [OF before, of PROCESS L ys] lastx absorb_succ_not_hole [OF hdy, of HOLE a L]
    show ?thesis by (simp only: if_False)
  next
    case False
    then have "split_block cap S xs (HOLE, a, L) ys = xs @ (PROCESS, a, S) # (HOLE, a + S, L - S) # ys"
      by (simp add: split_block_def)
    with release_decomp [OF before, of PROCESS S "(HOLE, a + S, L - S) # ys"] lastx
    show ?thesis by (simp only: if_False) simp
  qed
qed

lemma wf_alloc_scan:
  assumes w: "well_formed s" and algo: "heap_algo s \<noteq> NEXT_FIT"
  shows "\<exists>s' p bs. mavalloc_alloc sz s = Some (Ret (s', p)) \<and> mavalloc_print s = Some bs \<and>
     blocks_inv (memory_arena_size s) bs \<and>
     (s' = s \<and> p = 0 \<or>
      (\<exists>bs'. mavalloc_print s' = Some bs' \<and>
         alloc_rel (memory_arena s) (memory_arena_size s) (ALIGN4 sz) bs bs' p)) \<and>
     (no_fit (ALIGN4 sz) bs \<longrightarrow> s' = s \<and> p = 0)"
proof -
  from w obtain chain pool where sh: "shape s chain pool"
    and inv: "blocks_inv (memory_arena_size s) (blocks_of (node_stack s) (tl chain))"
    by (auto simp: well_formed_def)
  have "\<exists>s' p. mavalloc_alloc sz s = Some (Ret (s', p)) \<and> alloc_result s chain (ALIGN4 sz) s' p"
  proof (cases "heap_algo s")
    case FIRST_FIT
    with alloc_first_fit_step [OF sh inv, of "ALIGN4 sz"] show ?thesis
      by (simp add: mavalloc_alloc_def)
  next
    case NEXT_FIT
    with algo show ?thesis by simp
  next
    case BEST_FIT
    with alloc_best_fit_step [OF sh inv, of "ALIGN4 sz"] show ?thesis
      by (simp add: mavalloc_alloc_def)
  next
    case WORST_FIT
    with alloc_worst_fit_step [OF sh inv, of "ALIGN4 sz"] show ?thesis
      by (simp add: mavalloc_alloc_def)
  qed
  then obtain s' p where res: "mavalloc_alloc sz s = Some (Ret (s', p))"
    and ar: "alloc_result s chain (ALIGN4 sz) s' p" by blast
  from ar obtain chain' pool' where sh': "shape s' chain' pool'" and
    eff: "s' = s \<and> p = 0 \<or>
         alloc_rel (memory_arena s) (memory_arena_size s) (ALIGN4 sz) (blocks_of (node_stack s) (tl chain))
           (blocks_of (node_stack s') (tl chain')) p"
    and nf: "no_fit (ALIGN4 sz) (blocks_of (node_stack s) (tl chain)) \<longrightarrow> s' = s \<and> p = 0"
    by (auto simp: alloc_result_def)
  from res inv eff nf mavalloc_print_shape [OF sh] mavalloc_print_shape [OF sh'] show ?thesis
    by auto
qed

lemma first_fit_test_setup_arena: "memory_arena first_fit_test_setup = 4096"
  by (simp add: first_fit_test_setup_def eval_simps)

section \<open>Positions in the linked list\<close>

lemma lseg_next_nth:
  "lseg ns p xs q \<Longrightarrow> Suc i < length xs \<Longrightarrow> next_n (ns (xs ! i)) = Some (xs ! Suc i)"
proof (induction xs arbitrary: p i)
  case (Cons x xs)
  show ?case
  proof (cases i)
    case 0
    with Cons.prems show ?thesis by (cases xs) auto
  next
    case (Suc j)
    with Cons.prems Cons.IH [of "next_n (ns x)" j] show ?thesis by simp
  qed
qed simp

lemma node_at_shape:
  assumes "shape s chain pool"
  shows "i < length chain \<Longrightarrow> node_at s i = Some (chain ! i)"
proof (induction i)
  case 0
  with assms show ?case by (cases chain) (auto simp: shape_def)
next
  case (Suc i)
  from assms have "lseg (node_stack s) (head_pointer s) chain None" by (simp add: shape_def)
  from lseg_next_nth [OF this Suc.prems] Suc show ?case by simp
qed

lemma full_split_exact:
  assumes inv: "blocks_inv cap (xs @ (HOLE, a, L) # ys)" and fit: "S \<le> L" and full: "cap \<le> a + S"
  shows "L - S = 0"
proof -
  from inv obtain m where am: "unat a = m" and t2: "tiles (m + unat L) ys (unat cap)"
    by (auto simp: blocks_inv_def tiles_append)
  from tiles_le [OF t2] am have bound: "unat a + unat L \<le> unat cap" by simp
  from word_sub_le [OF fit] have SL: "unat S \<le> unat L" by simp
  with bound have "unat a + unat S \<le> unat cap" by simp
  from word_add_no_wrap [OF this] have "unat (a + S) = unat a + unat S" .
  moreover from full have "unat cap \<le> unat (a + S)" by (simp add: word_le_nat_alt)
  ultimately have "unat L = unat S" using bound SL by simp
  then have "L = S" by (simp add: word_unat_eq_iff)
  then show ?thesis by simp
qed

lemma first_fit_test_setup_stack: "stack_head first_fit_test_setup \<noteq> None"
  by (simp add: first_fit_test_setup_def eval_simps)

section \<open>Further facts about runs\<close>

lemma reaches_reachable: "reaches ok s \<Longrightarrow> reachable s"
  unfolding reachable_def
  by (induction rule: reaches.induct) (auto intro: reaches.intros)

lemma first_fit_test_setup_size: "memory_arena_size first_fit_test_setup = 1840"
  by (simp add: first_fit_test_setup_def eval_simps)

lemma reachable_init_failed:
  "reachable s \<Longrightarrow> mavalloc_init arena stack_mem sz algo s = Ret (s', r) \<Longrightarrow> r \<noteq> 0 \<Longrightarrow>
     reachable s'"
  unfolding reachable_def by (rule reaches.init_failed)

section \<open>The block list of a reachable state\<close>

text \<open>
  C1, amended. In every reachable state the block list, read in list order, tiles the
  arena: it is not empty, its first block starts at offset 0, every block starts where
  its predecessor ends, and the last block ends at the capacity, which is a multiple
  of 4. The offsets ascend weakly; they ascend strictly when no block of the list has
  length 0. Positions are compared as natural numbers, so no sum in the statement wraps.
\<close>

theorem block_list_tiles_arena:
  assumes "reachable s"
  shows "\<exists>bs. mavalloc_print s = Some bs \<and> bs \<noteq> [] \<and>
     tiles 0 bs (unat (memory_arena_size s)) \<and> weakly_ascending bs \<and>
     (positive_blocks bs \<longrightarrow> strictly_ascending bs) \<and>
     4 dvd unat (memory_arena_size s)"
proof -
  from reachable_wf [OF assms] have "well_formed s" .
  from wf_print [OF this] obtain bs where bs: "mavalloc_print s = Some bs"
    "bs \<noteq> []" "tiles 0 bs (unat (memory_arena_size s))" by (auto simp: blocks_inv_def)
  from assms reaches_aligned [of "\<lambda>_. True" s] have "4 dvd memory_arena_size s"
    by (auto simp: reachable_def)
  then have "4 dvd unat (memory_arena_size s)" by (rule word_dvd4_unat)
  with bs tiles_sorted [OF bs(3)] tiles_strictly_sorted [OF bs(3)] show ?thesis
    by (auto simp: weakly_ascending_def strictly_ascending_def)
qed

theorem block_list_tiles_arena_witness:
  "reachable first_fit_test_setup \<and>
   mavalloc_print first_fit_test_setup =
     Some [(HOLE, 0, 200), (PROCESS, 200, 400), (HOLE, 600, 240), (PROCESS, 840, 400),
           (HOLE, 1240, 120), (PROCESS, 1360, 400), (HOLE, 1760, 80)] \<and>
   memory_arena_size first_fit_test_setup = 1840 \<and>
   tiles 0 [(HOLE, 0, 200), (PROCESS, 200, 400), (HOLE, 600, 240), (PROCESS, 840, 400),
           (HOLE, 1240, 120), (PROCESS, 1360, 400), (HOLE, 1760, 80)] 1840 \<and>
   strictly_ascending [(HOLE, 0, 200), (PROCESS, 200, 400), (HOLE, 600, 240), (PROCESS, 840, 400),
           (HOLE, 1240, 120), (PROCESS, 1360, 400), (HOLE, 1760, 80)]"
  using block_list_tiles_arena [OF first_fit_test_setup_reachable] first_fit_test_setup_reachable
    first_fit_test_setup_print first_fit_test_setup_size
  by (auto simp: positive_blocks_def)

text \<open>
  The strict ascent of the claim fails: \<^verbatim>\<open>mavalloc_alloc(0)\<close> on a fresh arena of 16 bytes
  splits a block of length 0 off the hole, and both blocks start at offset 0.
\<close>

theorem offsets_not_strictly_ascending_counterexample:
  "reachable zero_request_state \<and>
   mavalloc_print zero_request_state = Some [(PROCESS, 0, 0), (HOLE, 0, 16)] \<and>
   \<not> strictly_ascending [(PROCESS, 0, 0), (HOLE, 0, 16)]"
proof -
  have "reachable zero_request_state"
    by (simp add: zero_request_state_def reachable_run_init reachable_run_alloc)
  moreover have "mavalloc_print zero_request_state = Some [(PROCESS, 0, 0), (HOLE, 0, 16)]"
    by (simp add: zero_request_state_def eval_simps)
  moreover have "\<not> strictly_ascending [(PROCESS, 0, 0), (HOLE, 0, 16)]"
    by (simp add: strictly_ascending_def offsets_def)
  ultimately show ?thesis by simp
qed

text \<open>
  C2. In every reachable state no two consecutive blocks of the list are both holes.
  Each \<^verbatim>\<open>mavalloc_free\<close> returns; the list after it is \<open>release\<close> of the list before it
  (the block at the address becomes a hole that has absorbed a hole before it and a hole
  after it), and again no two consecutive blocks of it are both holes.
\<close>

theorem no_two_adjacent_free_blocks:
  assumes "reachable s"
  shows "(\<exists>bs. mavalloc_print s = Some bs \<and> no_adjacent_free bs) \<and>
     (\<forall>ptr. \<exists>s' bs bs'. mavalloc_free ptr s = Some (Ret s') \<and> mavalloc_print s = Some bs \<and>
        bs' = release (ptr - memory_arena s) bs \<and>
        mavalloc_print s' = Some bs' \<and> no_adjacent_free bs')"
proof
  from reachable_wf [OF assms] have w: "well_formed s" .
  from wf_print [OF w] show "\<exists>bs. mavalloc_print s = Some bs \<and> no_adjacent_free bs"
    by (auto simp: blocks_inv_def)
  show "\<forall>ptr. \<exists>s' bs bs'. mavalloc_free ptr s = Some (Ret s') \<and> mavalloc_print s = Some bs \<and>
        bs' = release (ptr - memory_arena s) bs \<and>
        mavalloc_print s' = Some bs' \<and> no_adjacent_free bs'"
  proof
    fix ptr
    from wf_free [OF w, of ptr] obtain s' bs where
      f: "mavalloc_free ptr s = Some (Ret s')" "well_formed s'" "mavalloc_print s = Some bs"
      "mavalloc_print s' = Some (release (ptr - memory_arena s) bs)"
      by blast
    from wf_print [OF f(2)] f(4) have "no_adjacent_free (release (ptr - memory_arena s) bs)"
      by (auto simp: blocks_inv_def)
    with f show "\<exists>s' bs bs'. mavalloc_free ptr s = Some (Ret s') \<and> mavalloc_print s = Some bs \<and>
        bs' = release (ptr - memory_arena s) bs \<and>
        mavalloc_print s' = Some bs' \<and> no_adjacent_free bs'"
      by blast
  qed
qed

theorem no_two_adjacent_free_blocks_witness:
  "reachable first_fit_test_setup \<and>
   mavalloc_print first_fit_test_setup =
     Some [(HOLE, 0, 200), (PROCESS, 200, 400), (HOLE, 600, 240), (PROCESS, 840, 400),
           (HOLE, 1240, 120), (PROCESS, 1360, 400), (HOLE, 1760, 80)] \<and>
   (\<exists>s'. mavalloc_free (4096 + 200) first_fit_test_setup = Some (Ret s') \<and>
      mavalloc_print s' =
        Some [(HOLE, 0, 840), (PROCESS, 840, 400), (HOLE, 1240, 120), (PROCESS, 1360, 400),
              (HOLE, 1760, 80)] \<and>
      no_adjacent_free [(HOLE, 0, 840), (PROCESS, 840, 400), (HOLE, 1240, 120),
        (PROCESS, 1360, 400), (HOLE, 1760, 80)])"
  using no_two_adjacent_free_blocks [OF first_fit_test_setup_reachable, THEN conjunct2, rule_format,
      of "4096 + 200"]
    first_fit_test_setup_reachable first_fit_test_setup_print first_fit_test_setup_arena
  by (auto simp: release_def)

section \<open>The split of a selected hole\<close>

text \<open>
  C3. Let the block list of a reachable state have a hole of length \<open>L\<close> at offset \<open>a\<close>
  in position \<open>length xs\<close>, let \<open>S \<le> L\<close>, and let the reserve stack hold a node. Then
  \<^verbatim>\<open>allocate_node\<close>, called as the strategies call it with the node before the hole,
  returns the arena address of offset \<open>a\<close> and puts a \<open>PROCESS\<close> block of length \<open>S\<close> at
  offset \<open>a\<close> into that position. If \<open>L - S = 0\<close> the hole is gone from the list and its
  node is the top of the reserve stack; otherwise the same node stays in the list, right
  after the new block, as a hole of length \<open>L - S\<close> at offset \<open>a + S\<close>. The blocks before
  and after are as they were.
\<close>

theorem split_on_allocation:
  assumes r: "reachable s" and pr: "mavalloc_print s = Some (xs @ (HOLE, a, L) # ys)"
    and fit: "S \<le> L" and avail: "stack_head s \<noteq> None"
  shows "\<exists>s'. allocate_node (node_at s (length xs)) S s = Ret (s', memory_arena s + a) \<and>
     mavalloc_print s' =
       Some (xs @ (PROCESS, a, S) # (if L - S = 0 then ys else (HOLE, a + S, L - S) # ys)) \<and>
     (if L - S = 0 then stack_head s' = node_at s (Suc (length xs))
      else node_at s' (Suc (Suc (length xs))) = node_at s (Suc (length xs)))"
proof -
  let ?ns = "node_stack s"
  from reachable_wf [OF r] obtain chain pool where sh: "shape s chain pool"
    and inv: "blocks_inv (memory_arena_size s) (blocks_of ?ns (tl chain))"
    by (auto simp: well_formed_def)
  from mavalloc_print_shape [OF sh] pr have bl: "blocks_of ?ns (tl chain) = xs @ (HOLE, a, L) # ys"
    by simp
  then obtain us' hole vs where tl: "tl chain = us' @ hole # vs" and
    us': "blocks_of ?ns us' = xs" and hole: "block_of (?ns hole) = (HOLE, a, L)" and
    vs: "blocks_of ?ns vs = ys"
    by (auto simp: blocks_of_def map_eq_append_conv map_eq_Cons_conv)
  from sh obtain h where ch0: "chain = h # tl chain" by (cases chain) (auto simp: shape_def)
  define us where "us = butlast (h # us')"
  define hp where "hp = last (h # us')"
  have snoc: "h # us' = us @ [hp]" by (simp add: us_def hp_def)
  with ch0 tl have ch: "chain = us @ hp # hole # vs" by (metis append_Cons append_Nil append_assoc)
  from snoc have tlus: "tl (us @ [hp]) = us'" by (metis list.sel(3))
  from snoc have "length us = length us'" by (metis length_Cons length_append_singleton nat.inject)
  with us' have len: "length us = length xs" by (auto simp: blocks_of_def)
  from hole have ha: "address (?ns hole) = a" and hL: "size_n (?ns hole) = L"
    by (simp_all add: block_of_def)
  from avail sh obtain new pool0 where pool: "pool = new # pool0"
    by (cases pool) (auto simp: shape_def)
  from split_block_inv(1) [OF inv [unfolded bl] fit] vs
  have last: "memory_arena_size s \<le> address (?ns hole) + S \<longrightarrow> vs = []"
    by (auto simp: ha blocks_of_def)
  from allocate_node_live [OF sh [unfolded pool] ch last] obtain s' chain' pool' where
    res: "allocate_node (Some hp) S s = Ret (s', memory_arena s + a)" and
    sh': "shape s' chain' pool'" and
    bl': "blocks_of (node_stack s') (tl chain') =
       split_block (memory_arena_size s) S xs (HOLE, a, L) ys" and
    lists: "if memory_arena_size s \<le> a + S \<or> L - S = 0
      then chain' = us @ hp # new # vs \<and> pool' = hole # pool0
      else chain' = us @ hp # new # hole # vs \<and> pool' = pool0"
    unfolding ha hL tlus us' hole vs by blast
  from full_split_exact [OF inv [unfolded bl] fit]
  have cond: "(memory_arena_size s \<le> a + S \<or> L - S = 0) = (L - S = 0)" by blast
  from node_at_shape [OF sh, of "length xs"] ch len have at_hp: "node_at s (length xs) = Some hp"
    by (simp add: nth_append)
  from node_at_shape [OF sh, of "Suc (length xs)"] ch len
  have at_hole: "node_at s (Suc (length xs)) = Some hole"
    by (simp add: nth_append del: node_at.simps)
  from mavalloc_print_shape [OF sh'] bl' cond
  have pr': "mavalloc_print s' =
       Some (xs @ (PROCESS, a, S) # (if L - S = 0 then ys else (HOLE, a + S, L - S) # ys))"
    by (simp add: split_block_def)
  have "if L - S = 0 then stack_head s' = node_at s (Suc (length xs))
      else node_at s' (Suc (Suc (length xs))) = node_at s (Suc (length xs))"
  proof (cases "L - S = 0")
    case True
    with lists cond sh' have "stack_head s' = Some hole" by (simp add: shape_def)
    with True at_hole show ?thesis by simp
  next
    case False
    with lists cond have c': "chain' = us @ hp # new # hole # vs" by simp
    from node_at_shape [OF sh', of "Suc (Suc (length xs))"] c' len
    have "node_at s' (Suc (Suc (length xs))) = Some hole"
      by (simp add: nth_append del: node_at.simps)
    with False at_hole show ?thesis by simp
  qed
  with res pr' at_hp show ?thesis by (simp del: node_at.simps)
qed

theorem split_on_allocation_witness:
  "reachable first_fit_test_setup \<and>
   mavalloc_print first_fit_test_setup =
     Some ([(HOLE, 0, 200), (PROCESS, 200, 400)] @ (HOLE, 600, 240) #
        [(PROCESS, 840, 400), (HOLE, 1240, 120), (PROCESS, 1360, 400), (HOLE, 1760, 80)]) \<and>
   (\<exists>s'. allocate_node (node_at first_fit_test_setup 2) 200 first_fit_test_setup =
        Ret (s', 4096 + 600) \<and>
      mavalloc_print s' =
        Some [(HOLE, 0, 200), (PROCESS, 200, 400), (PROCESS, 600, 200), (HOLE, 800, 40),
              (PROCESS, 840, 400), (HOLE, 1240, 120), (PROCESS, 1360, 400), (HOLE, 1760, 80)] \<and>
      node_at s' 4 = node_at first_fit_test_setup 3)"
proof -
  have pr: "mavalloc_print first_fit_test_setup =
     Some ([(HOLE, 0, 200), (PROCESS, 200, 400)] @ (HOLE, 600, 240) #
        [(PROCESS, 840, 400), (HOLE, 1240, 120), (PROCESS, 1360, 400), (HOLE, 1760, 80)])"
    using first_fit_test_setup_print by simp
  have fit: "(200 :: size_t) \<le> 240" by simp
  have nat_numerals: "(2 :: nat) = Suc (Suc 0)" "(3 :: nat) = Suc (Suc (Suc 0))"
    "(4 :: nat) = Suc (Suc (Suc (Suc 0)))" by simp_all
  from split_on_allocation [OF first_fit_test_setup_reachable pr fit first_fit_test_setup_stack]
    first_fit_test_setup_reachable pr first_fit_test_setup_arena
  show ?thesis unfolding nat_numerals by (simp del: node_at.simps)
qed

section \<open>Releasing an address that starts no allocated block\<close>

text \<open>
  C4, amended. In a reachable state, \<^verbatim>\<open>mavalloc_free\<close> of an address whose offset from the
  current value of \<^verbatim>\<open>memory_arena\<close> is not the start of a \<open>PROCESS\<close> block returns and
  leaves the block list as it was: the same blocks with the same kinds, offsets and
  lengths, in the same order; the globals keep their values.
\<close>

theorem free_of_unallocated_address_changes_nothing:
  assumes "reachable s" and "mavalloc_print s = Some bs"
    and "\<forall>b \<in> set bs. \<not> (fst b = PROCESS \<and> fst (snd b) = ptr - memory_arena s)"
  shows "\<exists>s'. mavalloc_free ptr s = Some (Ret s') \<and> mavalloc_print s' = Some bs \<and> same_globals s s'"
proof -
  from reachable_wf [OF assms(1)] have w: "well_formed s" .
  from wf_print [OF w] assms(2) have "no_adjacent_free bs" by (auto simp: blocks_inv_def)
  from release_noop [OF this assms(3)] have "release (ptr - memory_arena s) bs = bs" .
  with wf_free [OF w, of ptr] assms(2) show ?thesis by auto
qed

theorem free_of_unallocated_address_changes_nothing_witness:
  "reachable first_fit_test_setup \<and>
   mavalloc_print first_fit_test_setup =
     Some [(HOLE, 0, 200), (PROCESS, 200, 400), (HOLE, 600, 240), (PROCESS, 840, 400),
           (HOLE, 1240, 120), (PROCESS, 1360, 400), (HOLE, 1760, 80)] \<and>
   (\<exists>s'. mavalloc_free (4096 + 600) first_fit_test_setup = Some (Ret s') \<and>
      mavalloc_print s' =
        Some [(HOLE, 0, 200), (PROCESS, 200, 400), (HOLE, 600, 240), (PROCESS, 840, 400),
              (HOLE, 1240, 120), (PROCESS, 1360, 400), (HOLE, 1760, 80)] \<and>
      same_globals first_fit_test_setup s')"
  using free_of_unallocated_address_changes_nothing [OF first_fit_test_setup_reachable
      first_fit_test_setup_print, of "4096 + 600"]
    first_fit_test_setup_reachable first_fit_test_setup_print first_fit_test_setup_arena
  by simp

text \<open>
  That \<^verbatim>\<open>mavalloc_alloc\<close> never returned the address is not enough. After
  \<^verbatim>\<open>mavalloc_init(16, FIRST_FIT)\<close> with the arena at 4096 and two allocations of 8 bytes,
  which return 4096 and 4104, a second \<^verbatim>\<open>mavalloc_init\<close> whose \<^verbatim>\<open>malloc\<close> fails sets
  \<^verbatim>\<open>memory_arena\<close> to \<^verbatim>\<open>NULL\<close> and keeps the list. The address 8, which no allocation
  returned, then has offset 8, where the second block starts, and \<^verbatim>\<open>mavalloc_free\<close> of
  it turns that block into a hole.
\<close>

theorem free_of_address_never_returned_counterexample:
  "reachable failed_init_state \<and>
   (\<exists>s1 s2. mavalloc_alloc 8 (run_init 4096 zero_memory 16 FIRST_FIT) = Some (Ret (s1, 4096)) \<and>
      mavalloc_alloc 8 s1 = Some (Ret (s2, 4096 + 8)) \<and>
      mavalloc_init 0 None (2 ^ 63) FIRST_FIT s2 = Ret (failed_init_state, - 1)) \<and>
   memory_arena failed_init_state = 0 \<and>
   mavalloc_print failed_init_state = Some [(PROCESS, 0, 8), (PROCESS, 8, 8)] \<and>
   (\<exists>s'. mavalloc_free 8 failed_init_state = Some (Ret s') \<and>
      mavalloc_print s' = Some [(PROCESS, 0, 8), (HOLE, 8, 8)])"
proof -
  let ?s0 = "run_init 4096 zero_memory 16 FIRST_FIT"
  let ?s1 = "run_alloc 8 ?s0"
  let ?s2 = "run_alloc 8 ?s1"
  have r2: "reachable ?s2" by (simp add: reachable_run_init reachable_run_alloc)
  have i: "mavalloc_init 0 None (2 ^ 63) FIRST_FIT ?s2 = Ret (failed_init_state, - 1)"
    by (simp add: failed_init_state_def mavalloc_init_def Let_def)
  from reachable_init_failed [OF r2 i] have "reachable failed_init_state" by simp
  moreover have a1: "mavalloc_alloc 8 ?s0 = Some (Ret (?s1, 4096))"
    by (simp add: eval_simps)
  moreover have a2: "mavalloc_alloc 8 ?s1 = Some (Ret (?s2, 4096 + 8))"
    by (simp add: eval_simps)
  moreover have "memory_arena failed_init_state = 0"
    by (simp add: failed_init_state_def mavalloc_init_def Let_def)
  moreover have "mavalloc_print failed_init_state = Some [(PROCESS, 0, 8), (PROCESS, 8, 8)]"
    by (simp add: failed_init_state_def eval_simps)
  moreover have "\<exists>s'. mavalloc_free 8 failed_init_state = Some (Ret s') \<and>
      mavalloc_print s' = Some [(PROCESS, 0, 8), (HOLE, 8, 8)]"
    by (simp add: failed_init_state_def eval_simps)
  ultimately show ?thesis using i by blast
qed

section \<open>A request that no hole satisfies\<close>

text \<open>
  Under first fit, best fit and worst fit such a request returns \<^verbatim>\<open>NULL\<close> and leaves the
  state as it is.
\<close>

lemma alloc_fails_when_nothing_fits:
  assumes "reachable s" and "heap_algo s \<noteq> NEXT_FIT" and "mavalloc_print s = Some bs"
    and "no_fit (ALIGN4 sz) bs"
  shows "mavalloc_alloc sz s = Some (Ret (s, 0))"
  using wf_alloc_scan [OF reachable_wf [OF assms(1)] assms(2), of sz] assms(3,4) by auto

text \<open>
  C5 fails under next fit. \<^verbatim>\<open>mavalloc_free\<close> never updates \<^verbatim>\<open>previous_node\<close>. After
  \<^verbatim>\<open>mavalloc_init(8, NEXT_FIT)\<close>, two allocations of 4 bytes and the release of both, the
  list is the single hole of 8 bytes and \<^verbatim>\<open>previous_node\<close> points to its node, the last
  of the list. A request of 12 bytes, more than any hole has, reads
  \<^verbatim>\<open>previous_node->next->type\<close> through the \<^verbatim>\<open>NULL\<close> link: the call does not return a
  failure, it crashes.
\<close>

theorem next_fit_alloc_crashes:
  "reachable last_node_cursor_state \<and>
   mavalloc_print last_node_cursor_state = Some [(HOLE, 0, 8)] \<and>
   mavalloc_alloc 12 last_node_cursor_state = Some Crash"
proof -
  have "reachable last_node_cursor_state"
    by (simp add: last_node_cursor_state_def reachable_run_init reachable_run_alloc reachable_run_free)
  moreover have "mavalloc_print last_node_cursor_state = Some [(HOLE, 0, 8)]"
    by (simp add: last_node_cursor_state_def eval_simps)
  moreover have "mavalloc_alloc 12 last_node_cursor_state = Some Crash"
    by (simp add: last_node_cursor_state_def eval_simps)
  ultimately show ?thesis by simp
qed

section \<open>Allocation followed by release\<close>

text \<open>
  C6, amended. Take a state reached by calls whose aligned sizes are all different from
  0, under first fit, best fit or worst fit. If \<^verbatim>\<open>mavalloc_alloc\<close> returns an address
  other than \<^verbatim>\<open>NULL\<close>, then \<^verbatim>\<open>mavalloc_free\<close> of that address returns and the block list
  after it is the block list before the allocation, block for block.
\<close>

theorem alloc_then_free_restores_block_list:
  assumes r: "reaches (\<lambda>n. n \<noteq> 0) s" and algo: "heap_algo s \<noteq> NEXT_FIT"
    and res: "mavalloc_alloc sz s = Some (Ret (s', p))" and p: "p \<noteq> 0"
  shows "\<exists>s'' bs. mavalloc_free p s' = Some (Ret s'') \<and> mavalloc_print s = Some bs \<and>
     mavalloc_print s'' = Some bs"
proof -
  from reaches_wf [OF r] have w: "well_formed s" .
  from wf_alloc_scan [OF w algo, of sz] res p obtain bs bs' where
    bs: "mavalloc_print s = Some bs" and inv: "blocks_inv (memory_arena_size s) bs" and
    bs': "mavalloc_print s' = Some bs'" and
    ar: "alloc_rel (memory_arena s) (memory_arena_size s) (ALIGN4 sz) bs bs' p"
    by auto
  from reaches_positive [OF r] bs have pos: "positive_blocks bs" by simp
  from ar obtain xs a L ys where d: "bs = xs @ (HOLE, a, L) # ys" "ALIGN4 sz \<le> L"
    "bs' = split_block (memory_arena_size s) (ALIGN4 sz) xs (HOLE, a, L) ys" "p = memory_arena s + a"
    by (auto simp: alloc_rel_def)
  from release_split_block [OF inv [unfolded d(1)] pos [unfolded d(1)] d(2)] d
  have restored: "release a bs' = bs" by simp
  from wf_alloc [OF w res] have w': "well_formed s'" and arena: "memory_arena s' = memory_arena s"
    by (simp_all add: same_arena_def)
  from wf_free [OF w', of p] bs' obtain s'' where
    "mavalloc_free p s' = Some (Ret s'')" "mavalloc_print s'' = Some (release (p - memory_arena s') bs')"
    by auto
  with arena d(4) restored bs show ?thesis by simp
qed

theorem alloc_then_free_restores_block_list_witness:
  "reaches (\<lambda>n. n \<noteq> 0) first_fit_test_setup \<and> heap_algo first_fit_test_setup \<noteq> NEXT_FIT \<and>
   (\<exists>s'. mavalloc_alloc 80 first_fit_test_setup = Some (Ret (s', 4096)) \<and>
      mavalloc_print s' =
        Some [(PROCESS, 0, 80), (HOLE, 80, 120), (PROCESS, 200, 400), (HOLE, 600, 240),
              (PROCESS, 840, 400), (HOLE, 1240, 120), (PROCESS, 1360, 400), (HOLE, 1760, 80)] \<and>
      (\<exists>s''. mavalloc_free 4096 s' = Some (Ret s'') \<and>
         mavalloc_print s'' =
           Some [(HOLE, 0, 200), (PROCESS, 200, 400), (HOLE, 600, 240), (PROCESS, 840, 400),
                 (HOLE, 1240, 120), (PROCESS, 1360, 400), (HOLE, 1760, 80)]))"
proof -
  have algo: "heap_algo first_fit_test_setup \<noteq> NEXT_FIT"
    by (simp add: first_fit_test_setup_def eval_simps)
  obtain s' where res: "mavalloc_alloc 80 first_fit_test_setup = Some (Ret (s', 4096))"
    and pr: "mavalloc_print s' =
        Some [(PROCESS, 0, 80), (HOLE, 80, 120), (PROCESS, 200, 400), (HOLE, 600, 240),
              (PROCESS, 840, 400), (HOLE, 1240, 120), (PROCESS, 1360, 400), (HOLE, 1760, 80)]"
    by (simp add: first_fit_test_setup_def eval_simps)
  from alloc_then_free_restores_block_list [OF first_fit_test_setup_nonzero algo res]
    first_fit_test_setup_print first_fit_test_setup_nonzero algo res pr
  show ?thesis by auto
qed

text \<open>
  With a block of length 0 in the list the claim fails. After \<^verbatim>\<open>mavalloc_alloc(0)\<close> on a
  fresh arena of 16 bytes, \<^verbatim>\<open>mavalloc_alloc(4)\<close> returns the arena address of offset 0,
  where the block of length 0 starts too. \<^verbatim>\<open>mavalloc_free\<close> of that address stops at the
  first node with the offset, the block of length 0, and the 4 bytes stay allocated.
\<close>

theorem alloc_then_free_counterexample:
  "reachable zero_request_state \<and>
   mavalloc_print zero_request_state = Some [(PROCESS, 0, 0), (HOLE, 0, 16)] \<and>
   (\<exists>s' s''. mavalloc_alloc 4 zero_request_state = Some (Ret (s', 4096)) \<and>
      mavalloc_print s' = Some [(PROCESS, 0, 0), (PROCESS, 0, 4), (HOLE, 4, 12)] \<and>
      mavalloc_free 4096 s' = Some (Ret s'') \<and>
      mavalloc_print s'' = Some [(HOLE, 0, 0), (PROCESS, 0, 4), (HOLE, 4, 12)])"
proof -
  have "reachable zero_request_state"
    by (simp add: zero_request_state_def reachable_run_init reachable_run_alloc)
  moreover have "mavalloc_print zero_request_state = Some [(PROCESS, 0, 0), (HOLE, 0, 16)]"
    by (simp add: zero_request_state_def eval_simps)
  moreover have "\<exists>s' s''. mavalloc_alloc 4 zero_request_state = Some (Ret (s', 4096)) \<and>
      mavalloc_print s' = Some [(PROCESS, 0, 0), (PROCESS, 0, 4), (HOLE, 4, 12)] \<and>
      mavalloc_free 4096 s' = Some (Ret s'') \<and>
      mavalloc_print s'' = Some [(HOLE, 0, 0), (PROCESS, 0, 4), (HOLE, 4, 12)]"
    by (simp add: zero_request_state_def eval_simps)
  ultimately show ?thesis by simp
qed

section \<open>Next fit with a cursor that a release has left behind\<close>

text \<open>
  C7 fails. After \<^verbatim>\<open>mavalloc_init(12, NEXT_FIT)\<close>, three allocations of 4 bytes and the
  release of the first two, the second release has merged the node of the second block
  into its predecessor and pushed it onto the reserve stack, and \<^verbatim>\<open>previous_node\<close> still
  points to it. A request of 16 bytes walks from there down the reserve stack (in zeroed
  memory), wraps to the head at its end and then cycles through the list without ever
  meeting \<^verbatim>\<open>previous_node\<close> again: the call does not terminate.
\<close>

theorem next_fit_alloc_never_returns:
  "reachable stale_cursor_state \<and>
   mavalloc_print stale_cursor_state = Some [(HOLE, 0, 8), (PROCESS, 8, 4)] \<and>
   mavalloc_alloc 16 stale_cursor_state = None"
proof -
  have "reachable stale_cursor_state"
    by (simp add: stale_cursor_state_def reachable_run_init reachable_run_alloc reachable_run_free)
  moreover have "mavalloc_print stale_cursor_state = Some [(HOLE, 0, 8), (PROCESS, 8, 4)]"
    by (simp add: stale_cursor_state_def eval_simps)
  moreover have "mavalloc_alloc 16 stale_cursor_state = None"
    by (simp add: mavalloc_alloc_def alloc_next_fit_def stale_cursor_state_fields ALIGN4_def
        stale_cursor_scan_diverges)
  ultimately show ?thesis by simp
qed

text \<open>
  In zeroed memory a request that the stale cursor serves from the reserve stack returns
  the address of a block that is not in the list.
\<close>

lemma next_fit_alloc_of_no_block:
  "reachable released_all_state \<and>
   mavalloc_print released_all_state = Some [(HOLE, 0, 12)] \<and>
   (\<exists>s'. mavalloc_alloc 4 released_all_state = Some (Ret (s', 4096 + 8)) \<and>
      mavalloc_print s' = Some [(HOLE, 0, 12)])"
proof -
  have "reachable released_all_state"
    by (simp add: released_all_state_def reachable_run_init reachable_run_alloc reachable_run_free)
  moreover have "mavalloc_print released_all_state = Some [(HOLE, 0, 12)]"
    by (simp add: released_all_state_def eval_simps)
  moreover have "\<exists>s'. mavalloc_alloc 4 released_all_state = Some (Ret (s', 4096 + 8)) \<and>
      mavalloc_print s' = Some [(HOLE, 0, 12)]"
    by (simp add: released_all_state_def eval_simps)
  ultimately show ?thesis by simp
qed

section \<open>Alignment of the returned address\<close>

text \<open>
  Under first fit, best fit and worst fit an allocation that returns an address has put
  a \<open>PROCESS\<close> block of the aligned length at that address into the list, and both the
  offset of the address in the arena and the length are multiples of 4.
\<close>

lemma alloc_returns_aligned_block:
  assumes r: "reachable s" and algo: "heap_algo s \<noteq> NEXT_FIT"
    and res: "mavalloc_alloc sz s = Some (Ret (s', p))" and p: "p \<noteq> 0"
  shows "4 dvd (p - memory_arena s) \<and> 4 dvd ALIGN4 sz \<and>
     (\<exists>bs'. mavalloc_print s' = Some bs' \<and> (PROCESS, p - memory_arena s, ALIGN4 sz) \<in> set bs')"
proof -
  from wf_alloc_scan [OF reachable_wf [OF r] algo, of sz] res p obtain bs bs' where
    bs: "mavalloc_print s = Some bs" and bs': "mavalloc_print s' = Some bs'" and
    ar: "alloc_rel (memory_arena s) (memory_arena_size s) (ALIGN4 sz) bs bs' p"
    by auto
  from ar obtain xs a L ys where d: "bs = xs @ (HOLE, a, L) # ys"
    "bs' = split_block (memory_arena_size s) (ALIGN4 sz) xs (HOLE, a, L) ys" "p = memory_arena s + a"
    by (auto simp: alloc_rel_def)
  from r reaches_aligned [of "\<lambda>_. True" s] bs have "aligned_blocks bs"
    by (auto simp: reachable_def)
  with d(1) have "4 dvd a" by (simp add: aligned_blocks_def)
  moreover from d(2) have "(PROCESS, a, ALIGN4 sz) \<in> set bs'" by (simp add: split_block_def)
  ultimately show ?thesis using d(3) bs' by (simp add: ALIGN4_dvd)
qed

text \<open>
  C8 fails under next fit. The memory of the node array comes from \<^verbatim>\<open>malloc\<close>, and a slot
  that was never popped keeps what that memory held; here slot 5 reads as a hole of 8
  bytes at offset 2. After three allocations of 4 bytes and the release of all three,
  \<^verbatim>\<open>previous_node\<close> points into the reserve stack. \<^verbatim>\<open>mavalloc_alloc(8)\<close> then walks the
  reserve stack, selects slot 5 and returns the arena address of offset 2, which is not a
  multiple of 4; the block list is still the single hole, without any \<open>PROCESS\<close> block.
\<close>

theorem next_fit_alloc_returns_unaligned_address:
  "reachable reused_slot_state \<and>
   mavalloc_print reused_slot_state = Some [(HOLE, 0, 12)] \<and>
   (\<exists>s'. mavalloc_alloc 8 reused_slot_state = Some (Ret (s', 4096 + 2)) \<and>
      mavalloc_print s' = Some [(HOLE, 0, 12)])"
proof -
  have "reachable reused_slot_state"
    by (simp add: reused_slot_state_def reachable_run_init reachable_run_alloc reachable_run_free)
  moreover have "mavalloc_print reused_slot_state = Some [(HOLE, 0, 12)]"
    by (simp add: reused_slot_state_def stale_memory_def eval_simps)
  moreover have "\<exists>s'. mavalloc_alloc 8 reused_slot_state = Some (Ret (s', 4096 + 2)) \<and>
      mavalloc_print s' = Some [(HOLE, 0, 12)]"
    by (simp add: reused_slot_state_def stale_memory_def eval_simps)
  ultimately show ?thesis by simp
qed

section \<open>Blocks of length 0\<close>

text \<open>
  C9, amended. In every state reached by calls of \<^verbatim>\<open>mavalloc_init\<close> and \<^verbatim>\<open>mavalloc_alloc\<close>
  whose aligned sizes are all different from 0, and by any calls of \<^verbatim>\<open>mavalloc_free\<close>,
  every block of the list has a length other than 0. The head node is not a block of the
  list.
\<close>

theorem blocks_have_positive_length:
  assumes "reaches (\<lambda>n. n \<noteq> 0) s"
  shows "\<exists>bs. mavalloc_print s = Some bs \<and> positive_blocks bs"
  using assms by (rule reaches_positive)

theorem blocks_have_positive_length_witness:
  "reaches (\<lambda>n. n \<noteq> 0) first_fit_test_setup \<and>
   mavalloc_print first_fit_test_setup =
     Some [(HOLE, 0, 200), (PROCESS, 200, 400), (HOLE, 600, 240), (PROCESS, 840, 400),
           (HOLE, 1240, 120), (PROCESS, 1360, 400), (HOLE, 1760, 80)] \<and>
   positive_blocks [(HOLE, 0, 200), (PROCESS, 200, 400), (HOLE, 600, 240), (PROCESS, 840, 400),
           (HOLE, 1240, 120), (PROCESS, 1360, 400), (HOLE, 1760, 80)]"
  using blocks_have_positive_length [OF first_fit_test_setup_nonzero] first_fit_test_setup_nonzero
    first_fit_test_setup_print
  by auto

text \<open>
  A request that rounds to 0 puts a block of length 0 into the list: under best fit,
  after an allocation of 8 bytes in an arena of 24.
\<close>

theorem zero_length_block_counterexample:
  "reachable zero_request_best_fit \<and>
   mavalloc_print zero_request_best_fit = Some [(PROCESS, 0, 8), (PROCESS, 8, 0), (HOLE, 8, 16)] \<and>
   \<not> positive_blocks [(PROCESS, 0, 8), (PROCESS, 8, 0), (HOLE, 8, 16)]"
proof -
  have "reachable zero_request_best_fit"
    by (simp add: zero_request_best_fit_def reachable_run_init reachable_run_alloc)
  moreover have "mavalloc_print zero_request_best_fit = Some [(PROCESS, 0, 8), (PROCESS, 8, 0), (HOLE, 8, 16)]"
    by (simp add: zero_request_best_fit_def eval_simps)
  moreover have "\<not> positive_blocks [(PROCESS, 0, 8), (PROCESS, 8, 0), (HOLE, 8, 16)]"
    by (simp add: positive_blocks_def)
  ultimately show ?thesis by simp
qed

section \<open>Calls on an allocator that is not initialised\<close>

text \<open>
  C10. Every public function tests \<^verbatim>\<open>head_pointer\<close> first. While it is \<^verbatim>\<open>NULL\<close>, that is
  before any \<^verbatim>\<open>mavalloc_init\<close> and after \<^verbatim>\<open>mavalloc_destroy\<close>, an allocation under each
  of the four strategies returns \<^verbatim>\<open>NULL\<close> and leaves the state as it is, a release leaves
  the state as it is, the size is 0 and \<^verbatim>\<open>mavalloc_destroy\<close> changes nothing; so
  destroying twice is destroying once.
\<close>

theorem uninitialised_calls_are_noops:
  "head_pointer (uninitialised mem) = None \<and>
   head_pointer (mavalloc_destroy t) = None \<and>
   mavalloc_destroy (mavalloc_destroy t) = mavalloc_destroy t \<and>
   (head_pointer s = None \<longrightarrow>
      alloc_first_fit sz s = Some (Ret (s, 0)) \<and>
      alloc_next_fit sz s = Some (Ret (s, 0)) \<and>
      alloc_best_fit sz s = Some (Ret (s, 0)) \<and>
      alloc_worst_fit sz s = Some (Ret (s, 0)) \<and>
      mavalloc_alloc sz s = Some (Ret (s, 0)) \<and>
      mavalloc_free ptr s = Some (Ret s) \<and>
      mavalloc_size s = Some 0 \<and>
      mavalloc_destroy s = s)"
  by (cases "heap_algo s")
    (simp_all add: uninitialised_def mavalloc_destroy_def alloc_first_fit_def alloc_next_fit_def
      alloc_best_fit_def alloc_worst_fit_def mavalloc_alloc_def mavalloc_free_def mavalloc_size_def)

theorem uninitialised_calls_are_noops_witness:
  "head_pointer (uninitialised zero_memory) = None \<and>
   mavalloc_alloc 8 (uninitialised zero_memory) = Some (Ret (uninitialised zero_memory, 0)) \<and>
   mavalloc_free 8 (uninitialised zero_memory) = Some (Ret (uninitialised zero_memory)) \<and>
   mavalloc_size (uninitialised zero_memory) = Some 0 \<and>
   mavalloc_destroy (uninitialised zero_memory) = uninitialised zero_memory"
  using uninitialised_calls_are_noops [of zero_memory "uninitialised zero_memory" "uninitialised zero_memory" 8 8]
  by simp

end
